theory Spec2Isabelle
  imports Main "HOL-Library.Word"
begin

section \<open>The CFF INDEX decoder of TachyFont (cff\_index.js)\<close>

text \<open>
  The class \<open>tachyfont.CffIndex\<close> parses the header of a CFF INDEX (count, offSize and the
  offset array) in its constructor and loads the elements on demand. JavaScript numbers
  are modelled as \<open>nat\<close> where the code only holds unsigned values read from the buffer
  (all far below \<open>2 ^ 53\<close>, so the arithmetic is exact) and as \<open>int\<close> where a subtraction
  can go below zero. A thrown exception is the \<open>Inl\<close> branch of a sum. The object fields
  \<open>this.name_\<close>, \<open>this.count_\<close>, ... end in an underscore in the source; here they carry a
  prime after it. The build is the one with \<open>goog.DEBUG\<close> false, so \<open>dictOperators_\<close> and
  the display routine are left out; logging has no effect on the state.
\<close>

type_synonym byte = "8 word"

datatype error =
    RangeError string int \<comment> \<open>thrown by \<open>getElement\<close>: the text of its message and the index that ends it\<close>
  | DataViewRangeError \<comment> \<open>thrown by the built-in \<open>DataView\<close> constructor\<close>
  | TruncatedBuffer \<comment> \<open>a cursor read runs past the end of the buffer\<close>
  | OutsideInterface \<comment> \<open>a cursor operation is given an argument outside its interface\<close>
  | MalformedDict \<comment> \<open>the DICT decoder rejects its bytes\<close>
  | MalformedIndex \<comment> \<open>the error kind the specification asks for; no code path raises it\<close>

subsection \<open>The binary cursor\<close>

text \<open>
  Modelled from the spec: the class \<open>tachyfont.BinaryFontEditor\<close>, which is not among the
  sources. The specification describes it as a position over a fixed byte buffer with an
  absolute seek, big-endian unsigned reads of 8 and 16 bits, a big-endian offset read of a
  width from 1 to 4, and reads of a byte span and of a text of a given unsigned length; a
  read that runs past the end of the buffer fails with \<open>TruncatedBuffer\<close>. The field
  \<open>buffer\<close> holds the bytes of \<open>dataView.buffer\<close> from index
  \<open>dataView.byteOffset + baseOffset\<close> on, so that index \<open>offset\<close> here is the byte that
  \<open>loadDict\<close> addresses as \<open>dataView.byteOffset + baseOffset + offset\<close>.
\<close>

record BinaryFontEditor =
  buffer :: "byte list"
  offset :: nat

text \<open>Modelled from the spec: \<open>seek(offset)\<close>, the absolute seek.\<close>

definition seek :: "nat \<Rightarrow> BinaryFontEditor \<Rightarrow> BinaryFontEditor" where
  "seek newOffset binEd = binEd\<lparr>offset := newOffset\<rparr>"

text \<open>
  Modelled from the spec: the value of a sequence of bytes read as one big-endian unsigned
  integer.
\<close>

definition be_value :: "byte list \<Rightarrow> nat" where
  "be_value bs = foldl (\<lambda>v b. v * 256 + unat b) 0 bs"

text \<open>
  Modelled from the spec: the read of \<open>n\<close> bytes at the position, which moves the position
  past them or fails when they do not all lie inside the buffer. Every read below is this
  one, followed by the interpretation of the bytes.
\<close>

definition readBytes :: "nat \<Rightarrow> BinaryFontEditor \<Rightarrow> error + (byte list \<times> BinaryFontEditor)" where
  "readBytes n binEd =
     (if offset binEd + n \<le> length (buffer binEd)
      then Inr (take n (drop (offset binEd) (buffer binEd)), binEd\<lparr>offset := offset binEd + n\<rparr>)
      else Inl TruncatedBuffer)"

definition readUnsigned :: "nat \<Rightarrow> BinaryFontEditor \<Rightarrow> error + (nat \<times> BinaryFontEditor)" where
  "readUnsigned n binEd =
     (case readBytes n binEd of
        Inl e \<Rightarrow> Inl e
      | Inr (bs, binEd') \<Rightarrow> Inr (be_value bs, binEd'))"

text \<open>Modelled from the spec: \<open>getUint8()\<close>, the read of an unsigned 8-bit integer.\<close>

definition getUint8 :: "BinaryFontEditor \<Rightarrow> error + (nat \<times> BinaryFontEditor)" where
  "getUint8 binEd = readUnsigned 1 binEd"

text \<open>
  Modelled from the spec: \<open>getUint16()\<close>, the read of a big-endian unsigned 16-bit integer.
\<close>

definition getUint16 :: "BinaryFontEditor \<Rightarrow> error + (nat \<times> BinaryFontEditor)" where
  "getUint16 binEd = readUnsigned 2 binEd"

text \<open>
  Modelled from the spec: \<open>getOffset(offSize)\<close>, the read of a big-endian unsigned integer
  of a width from 1 to 4. The specification gives no behaviour for another width; the
  model refuses it with \<open>OutsideInterface\<close>, and no result below rests on that choice.
\<close>

definition getOffset :: "nat \<Rightarrow> BinaryFontEditor \<Rightarrow> error + (nat \<times> BinaryFontEditor)" where
  "getOffset offSize binEd =
     (if 1 \<le> offSize \<and> offSize \<le> 4 then readUnsigned offSize binEd else Inl OutsideInterface)"

text \<open>
  Modelled from the spec: a length handed to the cursor. The specification gives the
  reads below an unsigned length. The code hands them a difference of two offsets, a
  JavaScript number that can be negative, or \<open>NaN\<close> (\<open>None\<close> here) when an offset is
  missing. The specification gives no behaviour for such a length; the model refuses it
  with \<open>OutsideInterface\<close>.
\<close>

definition readSpan :: "int option \<Rightarrow> BinaryFontEditor \<Rightarrow> error + (byte list \<times> BinaryFontEditor)" where
  "readSpan len binEd =
     (case len of
        None \<Rightarrow> Inl OutsideInterface
      | Some l \<Rightarrow> if l < 0 then Inl OutsideInterface else readBytes (nat l) binEd)"

text \<open>
  Modelled from the spec: \<open>readDataView(length)\<close>, the read of a raw byte span of an
  unsigned length.
\<close>

definition readDataView :: "int option \<Rightarrow> BinaryFontEditor \<Rightarrow> error + (byte list \<times> BinaryFontEditor)" where
  "readDataView len binEd = readSpan len binEd"

text \<open>
  Modelled from the spec: \<open>readString(length)\<close>, the read of an unsigned number of bytes
  decoded as text, one character per byte.
\<close>

definition fromCharCode :: "byte \<Rightarrow> char" where
  "fromCharCode b = char_of (unat b)"

definition readString :: "int option \<Rightarrow> BinaryFontEditor \<Rightarrow> error + (string \<times> BinaryFontEditor)" where
  "readString len binEd =
     (case readSpan len binEd of
        Inl e \<Rightarrow> Inl e
      | Inr (bs, binEd') \<Rightarrow> Inr (map fromCharCode bs, binEd'))"

subsection \<open>The INDEX object\<close>

text \<open>
  An element is a string (\<open>readString\<close>), a \<open>DataView\<close> (\<open>readDataView\<close>; modelled by the
  bytes it spans, the buffer being read-only here) or a \<open>CffDict\<close>, whose representation
  \<open>'d\<close> belongs to the DICT decoder.
\<close>

datatype 'd element = Str string | View "byte list" | Dict 'd

record 'd CffIndex =
  name_' :: string
  offset_' :: nat
  type_' :: nat
  isBinary_' :: bool
  elements_' :: "'d element list"
  count_' :: nat
  offSize_' :: nat
  offsets_' :: "nat list"
  tableLength_' :: int

definition TYPE_STRING :: nat where
  "TYPE_STRING = 1"

definition TYPE_DICT :: nat where
  "TYPE_DICT = 2"

text \<open>
  The loop \<open>for (var i = 0; i <= this.count_; i++)\<close> of the constructor: it reads one offset
  per round and pushes it.
\<close>

function CffIndex_offsets ::
  "nat \<Rightarrow> nat \<Rightarrow> nat \<Rightarrow> nat list \<Rightarrow> BinaryFontEditor \<Rightarrow> error + (nat list \<times> BinaryFontEditor)" where
  "CffIndex_offsets count offSize i offsets binEd =
     (if i \<le> count
      then (case getOffset offSize binEd of
              Inl e \<Rightarrow> Inl e
            | Inr (elementOffset, binEd') \<Rightarrow>
                CffIndex_offsets count offSize (i + 1) (offsets @ [elementOffset]) binEd')
      else Inr (offsets, binEd))"
  by pat_completeness auto
termination
  by (relation "measure (\<lambda>(count, offSize, i, offsets, binEd). count + 1 - i)") auto

text \<open>
  The constructor. It returns the object and the cursor as it leaves it. The read
  \<open>this.offsets_[this.count_]\<close> is in range: the loop has pushed \<open>count + 1\<close> offsets
  (lemma \<open>CffIndex_offsets_Inr\<close>).
\<close>

definition CffIndex ::
  "string \<Rightarrow> nat \<Rightarrow> nat \<Rightarrow> bool \<Rightarrow> BinaryFontEditor \<Rightarrow> error + ('d CffIndex \<times> BinaryFontEditor)" where
  "CffIndex name offs type isBinary binEd =
     (case getUint16 (seek offs binEd) of
        Inl e \<Rightarrow> Inl e
      | Inr (count, binEd1) \<Rightarrow>
          if count = 0
          then Inr (\<lparr>name_' = name, offset_' = offs, type_' = type, isBinary_' = isBinary,
                     elements_' = [], count_' = count, offSize_' = 0, offsets_' = [],
                     tableLength_' = 2\<rparr>, binEd1)
          else (case getUint8 binEd1 of
                  Inl e \<Rightarrow> Inl e
                | Inr (offSize, binEd2) \<Rightarrow>
                    (case CffIndex_offsets count offSize 0 [] binEd2 of
                       Inl e \<Rightarrow> Inl e
                     | Inr (offsets, binEd3) \<Rightarrow>
                         Inr (\<lparr>name_' = name, offset_' = offs, type_' = type,
                                isBinary_' = isBinary, elements_' = [], count_' = count,
                                offSize_' = offSize, offsets_' = offsets,
                                tableLength_' =
                                  int (2 + 1 + (count + 1) * offSize + offsets ! count) - 1\<rparr>,
                              binEd3))))"

text \<open>
  \<open>index in this.elements_\<close> holds for an integer index exactly when it is one of the
  positions \<open>0 .. length - 1\<close> of the array, which is only ever extended by \<open>push\<close>. The
  message of the error is \<open>'CFF ' + this.name_ + ' INDEX: invalid index: ' + index\<close>; the
  error value keeps the text before the index and the index itself, and leaves the way
  JavaScript prints the number out of the model.
\<close>

definition getElement :: "'d CffIndex \<Rightarrow> int \<Rightarrow> error + 'd element" where
  "getElement this index =
     (if 0 \<le> index \<and> index < int (length (elements_' this))
      then Inr (elements_' this ! nat index)
      else Inl (RangeError (''CFF '' @ name_' this @ '' INDEX: invalid index: '') index))"

definition getLength :: "'d CffIndex \<Rightarrow> int" where
  "getLength this = tableLength_' this"

text \<open>
  \<open>this.offsets_[i + 1] - this.offsets_[i]\<close>. An index beyond the array reads \<open>undefined\<close>
  and the difference is \<open>NaN\<close>, which is \<open>None\<close> here.
\<close>

definition dataLength :: "nat list \<Rightarrow> nat \<Rightarrow> int option" where
  "dataLength offsets i =
     (if i + 1 < length offsets then Some (int (offsets ! (i + 1)) - int (offsets ! i)) else None)"

text \<open>
  The loop of \<open>loadStrings\<close>. When a read throws, the object keeps the elements pushed so
  far: the error branch carries the object as the exception leaves it.
\<close>

function loadStrings_loop ::
  "'d CffIndex \<Rightarrow> BinaryFontEditor \<Rightarrow> nat \<Rightarrow> (error \<times> 'd CffIndex) + ('d CffIndex \<times> BinaryFontEditor)" where
  "loadStrings_loop this binEd i =
     (if i < count_' this
      then (if isBinary_' this
            then (case readDataView (dataLength (offsets_' this) i) binEd of
                    Inl e \<Rightarrow> Inl (e, this)
                  | Inr (dataView, binEd') \<Rightarrow>
                      loadStrings_loop
                        (this\<lparr>elements_' := elements_' this @ [View dataView]\<rparr>) binEd' (i + 1))
            else (case readString (dataLength (offsets_' this) i) binEd of
                    Inl e \<Rightarrow> Inl (e, this)
                  | Inr (str, binEd') \<Rightarrow>
                      loadStrings_loop
                        (this\<lparr>elements_' := elements_' this @ [Str str]\<rparr>) binEd' (i + 1)))
      else Inr (this, binEd))"
  by pat_completeness auto
termination
  by (relation "measure (\<lambda>(this, binEd, i). count_' this - i)") auto

definition dataStart :: "'d CffIndex \<Rightarrow> nat" where
  "dataStart this = offset_' this + 2 + 1 + (count_' this + 1) * offSize_' this"

definition loadStrings ::
  "'d CffIndex \<Rightarrow> BinaryFontEditor \<Rightarrow> (error \<times> 'd CffIndex) + ('d CffIndex \<times> BinaryFontEditor)" where
  "loadStrings this binEd = loadStrings_loop this (seek (dataStart this) binEd) 0"

text \<open>
  The built-in \<open>new DataView(arrayBuffer, offset, length)\<close> takes a \<open>NaN\<close> length as 0 and
  throws a \<open>RangeError\<close> when the length is negative or the span does not lie inside the
  buffer.
\<close>

definition newDataView :: "byte list \<Rightarrow> nat \<Rightarrow> int option \<Rightarrow> error + byte list" where
  "newDataView arrayBuffer start len =
     (let n = (case len of None \<Rightarrow> 0 | Some l \<Rightarrow> l)
      in if 0 \<le> n \<and> int start + n \<le> int (length arrayBuffer)
         then Inr (take (nat n) (drop start arrayBuffer))
         else Inl DataViewRangeError)"

text \<open>
  The loop of \<open>loadDict\<close>. The class \<open>tachyfont.CffDict\<close> is not among the sources: the
  parameter \<open>cffDict name i dataView\<close> stands for
  \<open>new tachyfont.CffDict(this.name_ + i, dataView)\<close> followed by \<open>init()\<close>, which by the
  specification decodes the span into a dictionary or fails; it is given the two parts of
  the name apart. Each round takes its span at \<open>binEd.offset\<close>, which no statement of the
  loop changes.
\<close>

function loadDict_loop ::
  "(string \<Rightarrow> nat \<Rightarrow> byte list \<Rightarrow> error + 'd) \<Rightarrow> 'd CffIndex \<Rightarrow> BinaryFontEditor \<Rightarrow> nat \<Rightarrow>
     (error \<times> 'd CffIndex) + ('d CffIndex \<times> BinaryFontEditor)" where
  "loadDict_loop cffDict this binEd i =
     (if i < count_' this
      then (case newDataView (buffer binEd) (offset binEd) (dataLength (offsets_' this) i) of
              Inl e \<Rightarrow> Inl (e, this)
            | Inr dataView \<Rightarrow>
                (case cffDict (name_' this) i dataView of
                   Inl e \<Rightarrow> Inl (e, this)
                 | Inr dict \<Rightarrow>
                     loadDict_loop cffDict
                       (this\<lparr>elements_' := elements_' this @ [Dict dict]\<rparr>) binEd (i + 1)))
      else Inr (this, binEd))"
  by pat_completeness auto
termination
  by (relation "measure (\<lambda>(cffDict, this, binEd, i). count_' this - i)") auto

definition loadDict ::
  "(string \<Rightarrow> nat \<Rightarrow> byte list \<Rightarrow> error + 'd) \<Rightarrow> 'd CffIndex \<Rightarrow> BinaryFontEditor \<Rightarrow>
     (error \<times> 'd CffIndex) + ('d CffIndex \<times> BinaryFontEditor)" where
  "loadDict cffDict this binEd = loadDict_loop cffDict this (seek (dataStart this) binEd) 0"

text \<open>The object a load operation leaves behind, whether it returned or threw.\<close>

definition objectAfter :: "(error \<times> 'd CffIndex) + ('d CffIndex \<times> BinaryFontEditor) \<Rightarrow> 'd CffIndex" where
  "objectAfter r = (case r of Inl (e, this) \<Rightarrow> this | Inr (this, binEd) \<Rightarrow> this)"

text \<open>
  The element that one round of the loop of \<open>loadStrings\<close> pushes for a span of bytes: the
  span itself for a binary INDEX, its characters otherwise.
\<close>

definition element_of :: "bool \<Rightarrow> byte list \<Rightarrow> 'd element" where
  "element_of isBinary bs = (if isBinary then View bs else Str (map fromCharCode bs))"

subsection \<open>The INDEX encoding\<close>

text \<open>
  The byte layout that the decoder consumes, written out as an encoder so that decoding
  can be compared with it. It follows the specification's description of the layout, not
  any code of the repository: the count as a 16-bit big-endian integer; then, unless the
  count is 0, the offset width as one byte, \<open>count + 1\<close> big-endian offsets of that width,
  the first of them 1 and each next one larger by the length of an element, and the bytes
  of the elements one after the other.
\<close>

fun be_bytes :: "nat \<Rightarrow> nat \<Rightarrow> byte list" where
  "be_bytes 0 v = []"
| "be_bytes (Suc w) v = be_bytes w (v div 256) @ [of_nat (v mod 256)]"

fun elementOffsets :: "nat \<Rightarrow> byte list list \<Rightarrow> nat list" where
  "elementOffsets start [] = [start]"
| "elementOffsets start (e # es) = start # elementOffsets (start + length e) es"

definition encodeIndex :: "nat \<Rightarrow> byte list list \<Rightarrow> byte list" where
  "encodeIndex w es =
     (if es = [] then be_bytes 2 0
      else be_bytes 2 (length es) @ be_bytes 1 w @
           concat (map (be_bytes w) (elementOffsets 1 es)) @ concat es)"

text \<open>
  The bytes of an element to encode: the code units of a string, the bytes of a span. An
  element can come back from \<open>loadStrings\<close> when it is a span and the INDEX is binary, or a
  string and the INDEX is not.
\<close>

definition charCodeAt :: "char \<Rightarrow> byte" where
  "charCodeAt c = of_nat (of_char c)"

fun elementBytes :: "'d element \<Rightarrow> byte list" where
  "elementBytes (Str s) = map charCodeAt s"
| "elementBytes (View bs) = bs"
| "elementBytes (Dict d) = []"

fun loadable :: "bool \<Rightarrow> 'd element \<Rightarrow> bool" where
  "loadable isBinary (Str s) = (\<not> isBinary)"
| "loadable isBinary (View bs) = isBinary"
| "loadable isBinary (Dict d) = False"

section \<open>Properties\<close>

subsection \<open>Reading the header\<close>

declare CffIndex_offsets.simps [simp del]
declare loadStrings_loop.simps [simp del]
declare loadDict_loop.simps [simp del]

lemma readBytes_Inr_iff:
  "readBytes n b = Inr (bs, b') \<longleftrightarrow>
     offset b + n \<le> length (buffer b) \<and> bs = take n (drop (offset b) (buffer b)) \<and>
     b' = b\<lparr>offset := offset b + n\<rparr>"
  by (auto simp: readBytes_def)

lemma readUnsigned_Inr_iff:
  "readUnsigned n b = Inr (v, b') \<longleftrightarrow>
     offset b + n \<le> length (buffer b) \<and> v = be_value (take n (drop (offset b) (buffer b))) \<and>
     b' = b\<lparr>offset := offset b + n\<rparr>"
  by (auto simp: readUnsigned_def readBytes_def)

lemma getOffset_Inr_iff:
  "getOffset w b = Inr (v, b') \<longleftrightarrow>
     1 \<le> w \<and> w \<le> 4 \<and> offset b + w \<le> length (buffer b) \<and>
     v = be_value (take w (drop (offset b) (buffer b))) \<and> b' = b\<lparr>offset := offset b + w\<rparr>"
  by (auto simp: getOffset_def readUnsigned_Inr_iff)

lemma CffIndex_offsets_Inr:
  "CffIndex_offsets count w i acc b = Inr (offs, b') \<Longrightarrow> i \<le> count + 1 \<Longrightarrow>
   offset b = p + i * w \<Longrightarrow>
     offs = acc @ map (\<lambda>j. be_value (take w (drop (p + j * w) (buffer b)))) [i..<count + 1] \<and>
     b' = b\<lparr>offset := p + (count + 1) * w\<rparr>"
proof (induction count w i acc b arbitrary: offs b' rule: CffIndex_offsets.induct)
  case (1 count w i acc b)
  show ?case
  proof (cases "i \<le> count")
    case True
    with "1.prems"(1) obtain v b1 where
      g: "getOffset w b = Inr (v, b1)" and
      r: "CffIndex_offsets count w (i + 1) (acc @ [v]) b1 = Inr (offs, b')"
      by (subst (asm) CffIndex_offsets.simps) (auto split: sum.splits)
    from g "1.prems"(3) have
      v: "v = be_value (take w (drop (p + i * w) (buffer b)))" and
      b1: "b1 = b\<lparr>offset := p + (i + 1) * w\<rparr>"
      by (simp_all add: getOffset_Inr_iff algebra_simps)
    from b1 have o1: "offset b1 = p + (i + 1) * w" and bb: "buffer b1 = buffer b" by simp_all
    from "1.IH"[OF True g refl r _ o1] True have
      "offs = (acc @ [v]) @ map (\<lambda>j. be_value (take w (drop (p + j * w) (buffer b1)))) [i + 1..<count + 1]"
      "b' = b1\<lparr>offset := p + (count + 1) * w\<rparr>"
      by simp_all
    with True v b1 show ?thesis
      by (simp add: upt_conv_Cons del: upt_Suc)
  next
    case False
    with "1.prems" have "i = count + 1" by simp
    with "1.prems" show ?thesis
      by (subst (asm) CffIndex_offsets.simps) (auto)
  qed
qed


lemma CffIndex_offsets_total:
  "1 \<le> w \<Longrightarrow> w \<le> 4 \<Longrightarrow> i \<le> count + 1 \<Longrightarrow> offset b = p + i * w \<Longrightarrow>
   p + (count + 1) * w \<le> length (buffer b) \<Longrightarrow>
     \<exists>offs b'. CffIndex_offsets count w i acc b = Inr (offs, b')"
proof (induction count w i acc b rule: CffIndex_offsets.induct)
  case (1 count w i acc b)
  show ?case
  proof (cases "i \<le> count")
    case True
    have "(i + 1) * w \<le> (count + 1) * w"
      using True by (intro mult_le_mono1) simp
    then have "p + i * w + w \<le> p + (count + 1) * w"
      by (simp add: algebra_simps)
    with "1.prems"(4,5) have le: "offset b + w \<le> length (buffer b)" by linarith
    with "1.prems"(1,2) obtain v where
      g: "getOffset w b = Inr (v, b\<lparr>offset := offset b + w\<rparr>)"
      by (simp add: getOffset_Inr_iff)
    have o1: "offset (b\<lparr>offset := offset b + w\<rparr>) = p + (i + 1) * w"
      using "1.prems"(4) by (simp add: algebra_simps)
    have l1: "p + (count + 1) * w \<le> length (buffer (b\<lparr>offset := offset b + w\<rparr>))"
      using "1.prems"(5) by simp
    have i1: "i + 1 \<le> count + 1" using True by simp
    have "\<exists>offs b'. CffIndex_offsets count w (i + 1) (acc @ [v]) (b\<lparr>offset := offset b + w\<rparr>) = Inr (offs, b')"
      by (rule "1.IH"[OF True g refl "1.prems"(1,2) i1 o1 l1])
    with True g show ?thesis
      by (subst CffIndex_offsets.simps) simp
  next
    case False
    then show ?thesis by (subst CffIndex_offsets.simps) simp
  qed
qed

lemma CffIndex_Inr:
  assumes "CffIndex name offs type isBinary binEd = Inr (this, binEd')" and "1 \<le> count_' this"
  shows "this = \<lparr>name_' = name, offset_' = offs, type_' = type, isBinary_' = isBinary,
                  elements_' = [], count_' = be_value (take 2 (drop offs (buffer binEd))),
                  offSize_' = be_value (take 1 (drop (offs + 2) (buffer binEd))),
                  offsets_' = map (\<lambda>j. be_value (take (offSize_' this)
                                (drop (offs + 3 + j * offSize_' this) (buffer binEd))))
                              [0..<count_' this + 1],
                  tableLength_' =
                    int (2 + 1 + (count_' this + 1) * offSize_' this + offsets_' this ! count_' this) - 1\<rparr>"
    and "binEd' = binEd\<lparr>offset := offs + 3 + (count_' this + 1) * offSize_' this\<rparr>"
proof -
  from assms obtain count b1 w b2 offsets where
    c: "getUint16 (seek offs binEd) = Inr (count, b1)" and c0: "count \<noteq> 0" and
    w: "getUint8 b1 = Inr (w, b2)" and
    l: "CffIndex_offsets count w 0 [] b2 = Inr (offsets, binEd')" and
    t: "this = \<lparr>name_' = name, offset_' = offs, type_' = type, isBinary_' = isBinary,
                 elements_' = [], count_' = count, offSize_' = w, offsets_' = offsets,
                 tableLength_' = int (2 + 1 + (count + 1) * w + offsets ! count) - 1\<rparr>"
    by (auto simp: CffIndex_def split: sum.splits if_splits)
  from c have cv: "count = be_value (take 2 (drop offs (buffer binEd)))"
    and b1: "b1 = binEd\<lparr>offset := offs + 2\<rparr>"
    by (simp_all add: getUint16_def readUnsigned_Inr_iff seek_def)
  from w b1 have wv: "w = be_value (take 1 (drop (offs + 2) (buffer binEd)))"
    and b2: "b2 = binEd\<lparr>offset := offs + 3\<rparr>"
    by (simp_all add: getUint8_def readUnsigned_Inr_iff)
  from b2 have o2: "offset b2 = (offs + 3) + 0 * w" and bb: "buffer b2 = buffer binEd" by simp_all
  from CffIndex_offsets_Inr[OF l _ o2] b2 have
    ov: "offsets = map (\<lambda>j. be_value (take w (drop (offs + 3 + j * w) (buffer binEd)))) [0..<count + 1]"
    and b3: "binEd' = binEd\<lparr>offset := offs + 3 + (count + 1) * w\<rparr>"
    by simp_all
  from t have f: "count_' this = count" "offSize_' this = w" "offsets_' this = offsets" by simp_all
  show "this = \<lparr>name_' = name, offset_' = offs, type_' = type, isBinary_' = isBinary,
                  elements_' = [], count_' = be_value (take 2 (drop offs (buffer binEd))),
                  offSize_' = be_value (take 1 (drop (offs + 2) (buffer binEd))),
                  offsets_' = map (\<lambda>j. be_value (take (offSize_' this)
                                (drop (offs + 3 + j * offSize_' this) (buffer binEd))))
                              [0..<count_' this + 1],
                  tableLength_' =
                    int (2 + 1 + (count_' this + 1) * offSize_' this + offsets_' this ! count_' this) - 1\<rparr>"
    unfolding f using t cv wv ov by simp
  show "binEd' = binEd\<lparr>offset := offs + 3 + (count_' this + 1) * offSize_' this\<rparr>"
    unfolding f using b3 by simp
qed


lemma CffIndex_count_0:
  assumes "CffIndex name offs type isBinary binEd = Inr (this, binEd')" and "count_' this = 0"
  shows "this = \<lparr>name_' = name, offset_' = offs, type_' = type, isBinary_' = isBinary,
                  elements_' = [], count_' = 0, offSize_' = 0, offsets_' = [],
                  tableLength_' = 2\<rparr>"
    and "binEd' = binEd\<lparr>offset := offs + 2\<rparr>"
  using assms
  by (auto simp: CffIndex_def getUint16_def readUnsigned_Inr_iff seek_def
      split: sum.splits if_splits)

lemma CffIndex_fields:
  assumes "CffIndex name offs type isBinary binEd = Inr (this, binEd')"
  shows "name_' this = name" "offset_' this = offs" "type_' this = type"
    "isBinary_' this = isBinary" "elements_' this = []"
  using assms by (auto simp: CffIndex_def split: sum.splits if_splits)

lemma CffIndex_offsets_Inl:
  "CffIndex_offsets count w i acc b = Inl e \<Longrightarrow> e = TruncatedBuffer \<or> e = OutsideInterface"
proof (induction count w i acc b rule: CffIndex_offsets.induct)
  case (1 count w i acc b)
  from "1.prems" have lt: "i \<le> count"
    by (subst (asm) CffIndex_offsets.simps) (simp split: if_splits)
  show ?case
  proof (cases "getOffset w b")
    case (Inl e')
    with lt "1.prems" have "e = e'" by (subst (asm) CffIndex_offsets.simps) simp
    with Inl show ?thesis
      by (auto simp: getOffset_def readUnsigned_def readBytes_def split: if_splits)
  next
    case (Inr r)
    obtain v b1 where r: "r = (v, b1)" by (cases r)
    from lt Inr r "1.prems" have "CffIndex_offsets count w (i + 1) (acc @ [v]) b1 = Inl e"
      by (subst (asm) CffIndex_offsets.simps) simp
    from "1.IH"[OF lt _ refl this] Inr r show ?thesis by simp
  qed
qed

lemma CffIndex_Inl:
  assumes "CffIndex name offs type isBinary binEd = Inl e"
  shows "e = TruncatedBuffer \<or> e = OutsideInterface"
proof (cases "getUint16 (seek offs binEd)")
  case (Inl e')
  with assms have "e = e'" by (simp add: CffIndex_def)
  with Inl show ?thesis
    by (auto simp: getUint16_def readUnsigned_def readBytes_def split: if_splits)
next
  case (Inr r)
  obtain count b1 where r: "r = (count, b1)" by (cases r)
  from assms Inr r have c: "count \<noteq> 0" by (auto simp: CffIndex_def split: if_splits)
  show ?thesis
  proof (cases "getUint8 b1")
    case (Inl e')
    with assms Inr r c have "e = e'" by (simp add: CffIndex_def)
    with Inl show ?thesis
      by (auto simp: getUint8_def readUnsigned_def readBytes_def split: if_splits)
  next
    case w: (Inr r')
    obtain w b2 where r': "r' = (w, b2)" by (cases r')
    from assms Inr r c w r' have "CffIndex_offsets count w 0 [] b2 = Inl e"
      by (auto simp: CffIndex_def split: sum.splits)
    then show ?thesis by (rule CffIndex_offsets_Inl)
  qed
qed

lemma text_A: "map fromCharCode [65] = ''A''"
  by code_simp

lemma text_BC: "map fromCharCode [66, 67] = ''BC''"
  by code_simp

lemma CffIndex_total:
  assumes c1: "1 \<le> count" and c: "count = be_value (take 2 (drop offs (buffer binEd)))"
    and w: "w = be_value (take 1 (drop (offs + 2) (buffer binEd)))"
    and w1: "1 \<le> w" and w4: "w \<le> 4"
    and l: "offs + 3 + (count + 1) * w \<le> length (buffer binEd)"
  shows "\<exists>this binEd'. CffIndex name offs type isBinary binEd = Inr (this, binEd') \<and>
         count_' this = count \<and> offSize_' this = w \<and>
         tableLength_' this = int (2 + 1 + (count + 1) * w + offsets_' this ! count) - 1"
proof -
  from l w1 have l2: "offs + 3 \<le> length (buffer binEd)" by simp
  from c l2 have g16: "getUint16 (seek offs binEd) = Inr (count, binEd\<lparr>offset := offs + 2\<rparr>)"
    by (simp add: getUint16_def readUnsigned_Inr_iff seek_def)
  from w l2 have g8: "getUint8 (binEd\<lparr>offset := offs + 2\<rparr>) = Inr (w, binEd\<lparr>offset := offs + 3\<rparr>)"
    by (simp add: getUint8_def readUnsigned_Inr_iff)
  have "\<exists>offsets b'. CffIndex_offsets count w 0 [] (binEd\<lparr>offset := offs + 3\<rparr>) = Inr (offsets, b')"
    using w1 w4 l by (intro CffIndex_offsets_total[where p = "offs + 3"]) simp_all
  then obtain offsets b' where
    o: "CffIndex_offsets count w 0 [] (binEd\<lparr>offset := offs + 3\<rparr>) = Inr (offsets, b')"
    by blast
  from c1 g16 g8 o show ?thesis
    by (simp add: CffIndex_def)
qed

subsection \<open>The loop of \<open>loadStrings\<close>\<close>

lemma loadStrings_loop_unfold:
  "loadStrings_loop this b i =
     (if i < count_' this
      then (case dataLength (offsets_' this) i of
              None \<Rightarrow> Inl (OutsideInterface, this)
            | Some len \<Rightarrow>
                if len < 0 then Inl (OutsideInterface, this)
                else (case readBytes (nat len) b of
                        Inl e \<Rightarrow> Inl (e, this)
                      | Inr (bs, b') \<Rightarrow>
                          loadStrings_loop
                            (this\<lparr>elements_' := elements_' this @ [element_of (isBinary_' this) bs]\<rparr>)
                            b' (i + 1)))
      else Inr (this, b))"
  by (subst loadStrings_loop.simps)
     (simp add: readDataView_def readString_def readSpan_def element_of_def
        split: option.splits sum.splits)

lemma dataLength_Some_iff:
  "dataLength offsets i = Some len \<longleftrightarrow>
     Suc i < length offsets \<and> len = int (offsets ! Suc i) - int (offsets ! i)"
  by (auto simp: dataLength_def)

lemma loadStrings_loop_frame:
  "count_' this - i = n \<Longrightarrow>
     \<exists>es. objectAfter (loadStrings_loop this b i) = this\<lparr>elements_' := elements_' this @ es\<rparr>"
proof (induction n arbitrary: this b i)
  case 0
  then have "\<not> i < count_' this" by simp
  then have "loadStrings_loop this b i = Inr (this, b)"
    by (subst loadStrings_loop_unfold) simp
  then have "objectAfter (loadStrings_loop this b i) = this\<lparr>elements_' := elements_' this @ []\<rparr>"
    by (simp add: objectAfter_def)
  then show ?case by blast
next
  case (Suc n)
  then have lt: "i < count_' this" by simp
  have stop: "\<exists>es. this = this\<lparr>elements_' := elements_' this @ es\<rparr>"
    by (rule exI[of _ "[]"]) simp
  show ?case
  proof (cases "dataLength (offsets_' this) i")
    case None
    with lt have "loadStrings_loop this b i = Inl (OutsideInterface, this)"
      by (subst loadStrings_loop_unfold) simp
    with stop show ?thesis by (simp add: objectAfter_def)
  next
    case (Some len)
    show ?thesis
    proof (cases "len < 0")
      case True
      with lt Some have "loadStrings_loop this b i = Inl (OutsideInterface, this)"
        by (subst loadStrings_loop_unfold) simp
      with stop show ?thesis by (simp add: objectAfter_def)
    next
      case False
      show ?thesis
      proof (cases "readBytes (nat len) b")
        case (Inl e)
        with lt Some False have "loadStrings_loop this b i = Inl (e, this)"
          by (subst loadStrings_loop_unfold) simp
        with stop show ?thesis by (simp add: objectAfter_def)
      next
        case (Inr r)
        obtain bs b' where r: "r = (bs, b')" by (cases r)
        let ?this1 = "this\<lparr>elements_' := elements_' this @ [element_of (isBinary_' this) bs]\<rparr>"
        from lt Some False Inr r have u: "loadStrings_loop this b i = loadStrings_loop ?this1 b' (i + 1)"
          by (subst loadStrings_loop_unfold) simp
        from Suc.prems have "count_' ?this1 - (i + 1) = n" by simp
        from Suc.IH[OF this, of b'] obtain es where
          "objectAfter (loadStrings_loop ?this1 b' (i + 1)) = ?this1\<lparr>elements_' := elements_' ?this1 @ es\<rparr>"
          by blast
        then have "objectAfter (loadStrings_loop this b i) =
            this\<lparr>elements_' := elements_' this @ (element_of (isBinary_' this) bs # es)\<rparr>"
          by (simp add: u)
        then show ?thesis by blast
      qed
    qed
  qed
qed

lemma adjacent_mono:
  fixes xs :: "nat list"
  assumes "\<forall>j. i \<le> j \<and> j < c \<longrightarrow> xs ! j \<le> xs ! Suc j"
  shows "i \<le> j \<Longrightarrow> j \<le> k \<Longrightarrow> k \<le> c \<Longrightarrow> xs ! j \<le> xs ! k"
proof (induction k)
  case 0
  then show ?case by simp
next
  case (Suc k)
  show ?case
  proof (cases "j = Suc k")
    case True
    then show ?thesis by simp
  next
    case False
    with Suc.prems have jk: "j \<le> k" and kc: "k < c" by simp_all
    from Suc.IH[OF Suc.prems(1) jk] kc have "xs ! j \<le> xs ! k" by simp
    moreover from assms Suc.prems(1) jk kc have "xs ! k \<le> xs ! Suc k" by simp
    ultimately show ?thesis by simp
  qed
qed

text \<open>
  The loop of \<open>loadStrings\<close> runs to its end exactly when the offsets it meets do not
  decrease and the bytes they delimit lie inside the buffer.
\<close>

lemma loadStrings_loop_Inr_D:
  "count_' this - i = n \<Longrightarrow> loadStrings_loop this b i = Inr (this', b') \<Longrightarrow>
     (\<forall>j. i \<le> j \<and> j < count_' this \<longrightarrow>
        Suc j < length (offsets_' this) \<and> offsets_' this ! j \<le> offsets_' this ! Suc j) \<and>
     (i < count_' this \<longrightarrow>
        offset b + (offsets_' this ! count_' this - offsets_' this ! i) \<le> length (buffer b))"
proof (induction n arbitrary: this b i)
  case 0
  then show ?case by simp
next
  case (Suc n)
  then have lt: "i < count_' this" by simp
  from Suc.prems(2) lt obtain len bs b1 where
    d: "dataLength (offsets_' this) i = Some len" and nn: "\<not> len < 0" and
    r: "readBytes (nat len) b = Inr (bs, b1)" and
    u: "loadStrings_loop (this\<lparr>elements_' := elements_' this @ [element_of (isBinary_' this) bs]\<rparr>)
          b1 (i + 1) = Inr (this', b')"
    by (subst (asm) loadStrings_loop_unfold) (auto split: option.splits sum.splits if_splits)
  let ?o = "offsets_' this" and ?c = "count_' this"
  from d nn have s: "Suc i < length ?o" and le: "?o ! i \<le> ?o ! Suc i" and
    len: "nat len = ?o ! Suc i - ?o ! i"
    by (auto simp: dataLength_Some_iff)
  from r len have rd: "offset b + (?o ! Suc i - ?o ! i) \<le> length (buffer b)" and
    b1: "b1 = b\<lparr>offset := offset b + (?o ! Suc i - ?o ! i)\<rparr>"
    by (simp_all add: readBytes_Inr_iff)
  from Suc.prems(1) have "count_' (this\<lparr>elements_' := elements_' this @ [element_of (isBinary_' this) bs]\<rparr>) - (i + 1) = n"
    by simp
  from Suc.IH[OF this u] have
    m: "\<forall>j. Suc i \<le> j \<and> j < ?c \<longrightarrow> Suc j < length ?o \<and> ?o ! j \<le> ?o ! Suc j" and
    e: "Suc i < ?c \<longrightarrow> offset b1 + (?o ! ?c - ?o ! Suc i) \<le> length (buffer b1)"
    by simp_all
  have all: "\<forall>j. i \<le> j \<and> j < ?c \<longrightarrow> Suc j < length ?o \<and> ?o ! j \<le> ?o ! Suc j"
  proof (intro allI impI)
    fix j assume j: "i \<le> j \<and> j < ?c"
    show "Suc j < length ?o \<and> ?o ! j \<le> ?o ! Suc j"
    proof (cases "j = i")
      case True
      with s le show ?thesis by simp
    next
      case False
      with j m show ?thesis by simp
    qed
  qed
  then have mono: "\<forall>j. i \<le> j \<and> j < ?c \<longrightarrow> ?o ! j \<le> ?o ! Suc j" by blast
  have "offset b + (?o ! ?c - ?o ! i) \<le> length (buffer b)"
  proof (cases "Suc i < ?c")
    case True
    from adjacent_mono[OF mono, of "Suc i" ?c] True have "?o ! Suc i \<le> ?o ! ?c" by simp
    with le e True b1 show ?thesis by simp
  next
    case False
    with lt have "?c = Suc i" by simp
    with rd show ?thesis by simp
  qed
  with all show ?case by blast
qed


lemma loadStrings_loop_Inr_I:
  assumes "count_' this - i = n" and "i \<le> count_' this"
    and "\<forall>j. i \<le> j \<and> j < count_' this \<longrightarrow>
           Suc j < length (offsets_' this) \<and> offsets_' this ! j \<le> offsets_' this ! Suc j"
    and "i < count_' this \<longrightarrow>
           offset b + (offsets_' this ! count_' this - offsets_' this ! i) \<le> length (buffer b)"
  shows "loadStrings_loop this b i =
     Inr (this\<lparr>elements_' := elements_' this @
            map (\<lambda>j. element_of (isBinary_' this)
                   (take (offsets_' this ! Suc j - offsets_' this ! j)
                      (drop (offset b + (offsets_' this ! j - offsets_' this ! i)) (buffer b))))
              [i..<count_' this]\<rparr>,
          b\<lparr>offset := offset b + (offsets_' this ! count_' this - offsets_' this ! i)\<rparr>)"
  using assms
proof (induction n arbitrary: this b i)
  case 0
  then have "i = count_' this" by simp
  then show ?case by (subst loadStrings_loop_unfold) simp
next
  case (Suc n)
  let ?o = "offsets_' this" and ?c = "count_' this"
  from Suc.prems(1) have lt: "i < ?c" by simp
  from Suc.prems(3) have mono: "\<forall>j. i \<le> j \<and> j < ?c \<longrightarrow> ?o ! j \<le> ?o ! Suc j" by blast
  from Suc.prems(3) lt have s: "Suc i < length ?o" and le: "?o ! i \<le> ?o ! Suc i" by simp_all
  from adjacent_mono[OF mono, of "Suc i" ?c] lt have lec: "?o ! Suc i \<le> ?o ! ?c" by simp
  from s le have d: "dataLength ?o i = Some (int (?o ! Suc i - ?o ! i))"
    by (simp add: dataLength_def)
  let ?bs = "take (?o ! Suc i - ?o ! i) (drop (offset b) (buffer b))"
  let ?b1 = "b\<lparr>offset := offset b + (?o ! Suc i - ?o ! i)\<rparr>"
  let ?this1 = "this\<lparr>elements_' := elements_' this @ [element_of (isBinary_' this) ?bs]\<rparr>"
  from Suc.prems(4) lt le lec have "offset b + (?o ! Suc i - ?o ! i) \<le> length (buffer b)" by simp
  then have r: "readBytes (?o ! Suc i - ?o ! i) b = Inr (?bs, ?b1)"
    by (simp add: readBytes_Inr_iff)
  from lt d r have u: "loadStrings_loop this b i = loadStrings_loop ?this1 ?b1 (i + 1)"
    by (subst loadStrings_loop_unfold) simp
  have p1: "count_' ?this1 - (i + 1) = n" using Suc.prems(1) by simp
  have p2: "i + 1 \<le> count_' ?this1" using lt by simp
  have p3: "\<forall>j. i + 1 \<le> j \<and> j < count_' ?this1 \<longrightarrow>
      Suc j < length (offsets_' ?this1) \<and> offsets_' ?this1 ! j \<le> offsets_' ?this1 ! Suc j"
    using Suc.prems(3) by simp
  have p4: "i + 1 < count_' ?this1 \<longrightarrow>
      offset ?b1 + (offsets_' ?this1 ! count_' ?this1 - offsets_' ?this1 ! (i + 1)) \<le> length (buffer ?b1)"
    using Suc.prems(4) lt le lec by simp
  note ih = Suc.IH[OF p1 p2 p3 p4]
  have pos: "offset b + (?o ! Suc i - ?o ! i) + (?o ! j - ?o ! Suc i) = offset b + (?o ! j - ?o ! i)"
    if "j \<in> set [Suc i..<?c]" for j
  proof -
    from that have "Suc i \<le> j" "j \<le> ?c" by simp_all
    with adjacent_mono[OF mono, of "Suc i" j] have "?o ! Suc i \<le> ?o ! j" by simp
    with le show ?thesis by simp
  qed
  have m: "map (\<lambda>j. element_of (isBinary_' this)
                   (take (?o ! Suc j - ?o ! j)
                      (drop (offset b + (?o ! Suc i - ?o ! i) + (?o ! j - ?o ! Suc i)) (buffer b))))
              [Suc i..<?c] =
           map (\<lambda>j. element_of (isBinary_' this)
                   (take (?o ! Suc j - ?o ! j)
                      (drop (offset b + (?o ! j - ?o ! i)) (buffer b))))
              [Suc i..<?c]"
    by (rule map_cong[OF refl]) (simp only: pos)
  have e: "offset b + (?o ! Suc i - ?o ! i) + (?o ! ?c - ?o ! Suc i) = offset b + (?o ! ?c - ?o ! i)"
    using le lec by simp
  have up: "[i..<?c] = i # [Suc i..<?c]" using lt by (simp add: upt_conv_Cons)
  have ih': "loadStrings_loop ?this1 ?b1 (i + 1) =
     Inr (this\<lparr>elements_' := elements_' this @ element_of (isBinary_' this) ?bs #
            map (\<lambda>j. element_of (isBinary_' this)
                   (take (?o ! Suc j - ?o ! j)
                      (drop (offset b + (?o ! Suc i - ?o ! i) + (?o ! j - ?o ! Suc i)) (buffer b))))
              [Suc i..<?c]\<rparr>,
          b\<lparr>offset := offset b + (?o ! Suc i - ?o ! i) + (?o ! ?c - ?o ! Suc i)\<rparr>)"
    using ih by simp
  show ?case
    unfolding u ih' m e up by simp
qed


lemma loadStrings_Inr_D:
  assumes "loadStrings this c = Inr (this', c')"
  shows "(\<forall>j < count_' this.
            Suc j < length (offsets_' this) \<and> offsets_' this ! j \<le> offsets_' this ! Suc j) \<and>
         (0 < count_' this \<longrightarrow>
            dataStart this + (offsets_' this ! count_' this - offsets_' this ! 0)
              \<le> length (buffer c))"
  using loadStrings_loop_Inr_D[OF refl assms[unfolded loadStrings_def]]
  by (simp add: seek_def)

lemma loadStrings_Inr_I:
  assumes "\<forall>j < count_' this.
            Suc j < length (offsets_' this) \<and> offsets_' this ! j \<le> offsets_' this ! Suc j"
    and "0 < count_' this \<longrightarrow>
            dataStart this + (offsets_' this ! count_' this - offsets_' this ! 0)
              \<le> length (buffer c)"
  shows "loadStrings this c =
     Inr (this\<lparr>elements_' := elements_' this @
            map (\<lambda>j. element_of (isBinary_' this)
                   (take (offsets_' this ! Suc j - offsets_' this ! j)
                      (drop (dataStart this + (offsets_' this ! j - offsets_' this ! 0))
                         (buffer c))))
              [0..<count_' this]\<rparr>,
          c\<lparr>offset := dataStart this + (offsets_' this ! count_' this - offsets_' this ! 0)\<rparr>)"
proof -
  have "loadStrings_loop this (seek (dataStart this) c) 0 =
     Inr (this\<lparr>elements_' := elements_' this @
            map (\<lambda>j. element_of (isBinary_' this)
                   (take (offsets_' this ! Suc j - offsets_' this ! j)
                      (drop (offset (seek (dataStart this) c) +
                             (offsets_' this ! j - offsets_' this ! 0))
                         (buffer (seek (dataStart this) c)))))
              [0..<count_' this]\<rparr>,
          (seek (dataStart this) c)\<lparr>offset := offset (seek (dataStart this) c) +
             (offsets_' this ! count_' this - offsets_' this ! 0)\<rparr>)"
    using assms by (intro loadStrings_loop_Inr_I[OF refl]) (simp_all add: seek_def)
  then show ?thesis by (simp add: loadStrings_def seek_def)
qed

lemma loadStrings_Inr_eq:
  assumes "loadStrings this c = Inr (this', c')"
  shows "this' = this\<lparr>elements_' := elements_' this @
            map (\<lambda>j. element_of (isBinary_' this)
                   (take (offsets_' this ! Suc j - offsets_' this ! j)
                      (drop (dataStart this + (offsets_' this ! j - offsets_' this ! 0))
                         (buffer c))))
              [0..<count_' this]\<rparr>"
    and "c' = c\<lparr>offset := dataStart this + (offsets_' this ! count_' this - offsets_' this ! 0)\<rparr>"
proof -
  note d = loadStrings_Inr_D[OF assms]
  from d have 1: "\<forall>j < count_' this.
            Suc j < length (offsets_' this) \<and> offsets_' this ! j \<le> offsets_' this ! Suc j"
    by blast
  from d have 2: "0 < count_' this \<longrightarrow>
            dataStart this + (offsets_' this ! count_' this - offsets_' this ! 0)
              \<le> length (buffer c)"
    by blast
  note e = loadStrings_Inr_I[OF 1 2]
  from assms e show "this' = this\<lparr>elements_' := elements_' this @
            map (\<lambda>j. element_of (isBinary_' this)
                   (take (offsets_' this ! Suc j - offsets_' this ! j)
                      (drop (dataStart this + (offsets_' this ! j - offsets_' this ! 0))
                         (buffer c))))
              [0..<count_' this]\<rparr>"
    by simp
  from assms e show "c' = c\<lparr>offset := dataStart this + (offsets_' this ! count_' this - offsets_' this ! 0)\<rparr>"
    by simp
qed

lemma loadDict_loop_length:
  "count_' this - i = n \<Longrightarrow> loadDict_loop cffDict this b i = Inr (this', b') \<Longrightarrow>
     length (elements_' this') = length (elements_' this) + (count_' this - i) \<and>
     count_' this' = count_' this \<and> name_' this' = name_' this"
proof (induction n arbitrary: this i)
  case 0
  then have "\<not> i < count_' this" by simp
  with "0.prems"(2) show ?case
    by (subst (asm) loadDict_loop.simps) simp
next
  case (Suc n)
  then have lt: "i < count_' this" by simp
  from Suc.prems(2) lt obtain dict where
    u: "loadDict_loop cffDict (this\<lparr>elements_' := elements_' this @ [Dict dict]\<rparr>) b (i + 1) =
          Inr (this', b')"
    by (subst (asm) loadDict_loop.simps) (auto split: sum.splits)
  from Suc.prems(1) have "count_' (this\<lparr>elements_' := elements_' this @ [Dict dict]\<rparr>) - (i + 1) = n"
    by simp
  from Suc.IH[OF this u] lt show ?case by simp
qed

lemma loadDict_length:
  assumes "loadDict cffDict this c = Inr (this', c')"
  shows "length (elements_' this') = length (elements_' this) + count_' this"
    and "count_' this' = count_' this" and "name_' this' = name_' this"
  using loadDict_loop_length[OF refl assms[unfolded loadDict_def]] by simp_all

text \<open>The scenario of the specification, evaluated.\<close>

lemma scenario_construct:
  "CffIndex name 0 type False \<lparr>buffer = [0, 2, 1, 1, 2, 4, 65, 66, 67], offset = p\<rparr> =
     Inr (\<lparr>name_' = name, offset_' = 0, type_' = type, isBinary_' = False,
           elements_' = [], count_' = 2, offSize_' = 1,
           offsets_' = [1, 2, 4], tableLength_' = 9\<rparr>,
          \<lparr>buffer = [0, 2, 1, 1, 2, 4, 65, 66, 67], offset = 6\<rparr>)"
  by (simp add: CffIndex_def seek_def getUint16_def getUint8_def getOffset_def
        readUnsigned_def readBytes_def be_value_def CffIndex_offsets.simps)

lemma scenario_load:
  "loadStrings \<lparr>name_' = name, offset_' = 0, type_' = type, isBinary_' = False,
           elements_' = [], count_' = 2, offSize_' = 1,
           offsets_' = [1, 2, 4], tableLength_' = 9\<rparr>
       \<lparr>buffer = [0, 2, 1, 1, 2, 4, 65, 66, 67], offset = q\<rparr> =
     Inr (\<lparr>name_' = name, offset_' = 0, type_' = type, isBinary_' = False,
           elements_' = [Str ''A'', Str ''BC''], count_' = 2, offSize_' = 1,
           offsets_' = [1, 2, 4], tableLength_' = 9\<rparr>,
          \<lparr>buffer = [0, 2, 1, 1, 2, 4, 65, 66, 67], offset = 9\<rparr>)"
  by (simp add: seek_def readBytes_def loadStrings_def dataStart_def loadStrings_loop.simps
        dataLength_def readString_def readSpan_def text_A [simplified] text_BC [simplified])

text \<open>An INDEX with the single element \<open>A\<close>, evaluated.\<close>

lemma single_construct:
  "CffIndex name 0 type False \<lparr>buffer = [0, 1, 1, 1, 2, 65], offset = p\<rparr> =
     Inr (\<lparr>name_' = name, offset_' = 0, type_' = type, isBinary_' = False,
           elements_' = [], count_' = 1, offSize_' = 1,
           offsets_' = [1, 2], tableLength_' = 6\<rparr>,
          \<lparr>buffer = [0, 1, 1, 1, 2, 65], offset = 5\<rparr>)"
  by (simp add: CffIndex_def seek_def getUint16_def getUint8_def getOffset_def
        readUnsigned_def readBytes_def be_value_def CffIndex_offsets.simps)

lemma single_load:
  "loadStrings \<lparr>name_' = name, offset_' = 0, type_' = type, isBinary_' = False,
           elements_' = es, count_' = 1, offSize_' = 1,
           offsets_' = [1, 2], tableLength_' = 6\<rparr>
       \<lparr>buffer = [0, 1, 1, 1, 2, 65], offset = q\<rparr> =
     Inr (\<lparr>name_' = name, offset_' = 0, type_' = type, isBinary_' = False,
           elements_' = es @ [Str ''A''], count_' = 1, offSize_' = 1,
           offsets_' = [1, 2], tableLength_' = 6\<rparr>,
          \<lparr>buffer = [0, 1, 1, 1, 2, 65], offset = 6\<rparr>)"
  by (simp add: seek_def readBytes_def loadStrings_def dataStart_def loadStrings_loop.simps
        dataLength_def readString_def readSpan_def text_A [simplified])

subsection \<open>Decoding what the encoding lays out\<close>

lemma length_be_bytes: "length (be_bytes w v) = w"
  by (induction w arbitrary: v) simp_all

lemma be_value_snoc: "be_value (bs @ [b]) = be_value bs * 256 + unat b"
  by (simp add: be_value_def)

lemma be_value_be_bytes: "v < 256 ^ w \<Longrightarrow> be_value (be_bytes w v) = v"
proof (induction w arbitrary: v)
  case 0
  then show ?case by (simp add: be_value_def)
next
  case (Suc w)
  from Suc.prems have "v div 256 < 256 ^ w"
    by (simp add: less_mult_imp_div_less mult.commute)
  then have "be_value (be_bytes w (v div 256)) = v div 256" by (rule Suc.IH)
  moreover have "unat (of_nat (v mod 256) :: byte) = v mod 256"
    by (simp add: unat_of_nat)
  ultimately show ?case by (simp add: be_value_snoc)
qed

lemma fromCharCode_charCodeAt: "fromCharCode (charCodeAt c) = c"
  by (simp add: fromCharCode_def charCodeAt_def unat_of_nat)

lemma element_of_elementBytes: "loadable isBinary x \<Longrightarrow> element_of isBinary (elementBytes x) = x"
  by (cases x) (simp_all add: element_of_def fromCharCode_charCodeAt comp_def)

lemma length_elementOffsets: "length (elementOffsets s es) = length es + 1"
  by (induction es arbitrary: s) simp_all

lemma nth_elementOffsets:
  "j \<le> length es \<Longrightarrow> elementOffsets s es ! j = s + length (concat (take j es))"
proof (induction es arbitrary: s j)
  case Nil
  then show ?case by simp
next
  case (Cons e es)
  show ?case
  proof (cases j)
    case 0
    then show ?thesis by simp
  next
    case (Suc k)
    with Cons.prems have "k \<le> length es" by simp
    from Cons.IH[OF this, of "s + length e"] Suc show ?thesis by simp
  qed
qed

lemma elementOffsets_bound:
  "v \<in> set (elementOffsets s es) \<Longrightarrow> v \<le> s + length (concat es)"
proof (induction es arbitrary: s)
  case Nil
  then show ?case by simp
next
  case (Cons e es)
  from Cons.prems have "v = s \<or> v \<in> set (elementOffsets (s + length e) es)" by simp
  then show ?case
  proof
    assume "v = s" then show ?thesis by simp
  next
    assume "v \<in> set (elementOffsets (s + length e) es)"
    from Cons.IH[OF this] show ?thesis by simp
  qed
qed

lemma CffIndex_offsets_decode:
  "buffer b = A @ concat (map (be_bytes w) vs) @ C \<Longrightarrow> offset b = length A \<Longrightarrow>
   1 \<le> w \<Longrightarrow> w \<le> 4 \<Longrightarrow> \<forall>v \<in> set vs. v < 256 ^ w \<Longrightarrow> i + length vs = count + 1 \<Longrightarrow>
     CffIndex_offsets count w i acc b = Inr (acc @ vs, b\<lparr>offset := length A + w * length vs\<rparr>)"
proof (induction vs arbitrary: A i acc b)
  case Nil
  then have "\<not> i \<le> count" by simp
  with Nil show ?case by (subst CffIndex_offsets.simps) simp
next
  case (Cons v vs)
  from Cons.prems(6) have le: "i \<le> count" by simp
  from Cons.prems(5) have v: "v < 256 ^ w" by simp
  let ?b1 = "b\<lparr>offset := offset b + w\<rparr>"
  from Cons.prems(1,2) have tk: "take w (drop (offset b) (buffer b)) = be_bytes w v"
    by (simp add: length_be_bytes)
  from Cons.prems(1,2) have "offset b + w \<le> length (buffer b)"
    by (simp add: length_be_bytes)
  with Cons.prems(3,4) tk v have g: "getOffset w b = Inr (v, ?b1)"
    by (simp add: getOffset_Inr_iff be_value_be_bytes)
  have b1: "buffer ?b1 = (A @ be_bytes w v) @ concat (map (be_bytes w) vs) @ C"
    using Cons.prems(1) by simp
  have o1: "offset ?b1 = length (A @ be_bytes w v)"
    using Cons.prems(2) by (simp add: length_be_bytes)
  have r: "CffIndex_offsets count w (i + 1) (acc @ [v]) ?b1 =
      Inr ((acc @ [v]) @ vs, ?b1\<lparr>offset := length (A @ be_bytes w v) + w * length vs\<rparr>)"
    using Cons.prems(3,4,5,6) by (intro Cons.IH[OF b1 o1]) simp_all
  from le g r show ?case
    by (subst CffIndex_offsets.simps) (simp add: length_be_bytes)
qed

lemma concat_take_nth:
  "j < length es \<Longrightarrow> concat (take (Suc j) es) = concat (take j es) @ es ! j"
  by (simp add: take_Suc_conv_app_nth)

lemma drop_concat_take:
  "j \<le> length es \<Longrightarrow> drop (length (concat (take j es))) (concat es) = concat (drop j es)"
proof -
  assume "j \<le> length es"
  have "concat es = concat (take j es) @ concat (drop j es)"
    by (metis append_take_drop_id concat_append)
  then show ?thesis by (metis append_eq_conv_conj)
qed

lemma take_element:
  assumes "j < length es"
  shows "take (length (es ! j)) (drop (length (concat (take j es))) (concat es @ post)) = es ! j"
proof -
  from assms have le: "length (concat (take j es)) \<le> length (concat es)"
    by (metis append_take_drop_id concat_append length_append le_add1)
  from assms have "drop j es = es ! j # drop (Suc j) es"
    by (simp add: Cons_nth_drop_Suc)
  then have "concat (drop j es) = es ! j @ concat (drop (Suc j) es)" by simp
  with drop_concat_take[of j es] assms le show ?thesis by simp
qed


lemma length_concat_be_bytes: "length (concat (map (be_bytes w) vs)) = w * length vs"
  by (induction vs) (simp_all add: length_be_bytes)

lemma loadStrings_count_0:
  "count_' this = 0 \<Longrightarrow> loadStrings this c = Inr (this, c\<lparr>offset := dataStart this\<rparr>)"
  unfolding loadStrings_def by (subst loadStrings_loop.simps) (simp add: seek_def)

lemma be_bytes_2_0: "be_bytes 2 0 = [0, 0]"
  by (simp add: numeral_2_eq_2)

lemma encode_example:
  "encodeIndex 2 (map elementBytes [Str ''A'', Str ''BC'' :: unit element]) =
     [0, 2, 2, 0, 1, 0, 2, 0, 4, 65, 66, 67]"
  by code_simp

text \<open>
  The round trip through \<open>loadStrings\<close>. Take any sequence of fewer than 65536 elements,
  all strings or all byte spans, encode it as an INDEX with an offset width from 1 to 4
  that is wide enough for the largest offset, and place the encoding anywhere in a buffer.
  Construction at that place and \<open>loadStrings\<close> (binary for spans, not binary for strings)
  both return, the table length is the length of the encoding, and \<open>getElement i\<close> returns
  the \<open>i\<close>-th original element for every \<open>i\<close> below the number of elements.
\<close>

lemma loadStrings_round_trip:
  assumes w1: "1 \<le> w" and w4: "w \<le> 4" and n: "length xs < 65536"
    and fit: "length (concat (map elementBytes xs)) + 1 < 256 ^ w"
    and kind: "\<forall>x \<in> set xs. loadable isBinary x"
    and buf: "buffer binEd = pre @ encodeIndex w (map elementBytes xs) @ post"
  shows "\<exists>this binEd1 this' binEd2.
           CffIndex name (length pre) type isBinary binEd = Inr (this, binEd1) \<and>
           count_' this = length xs \<and>
           getLength this = int (length (encodeIndex w (map elementBytes xs))) \<and>
           loadStrings this binEd1 = Inr (this', binEd2) \<and>
           elements_' this' = xs \<and>
           (\<forall>i < length xs. getElement this' (int i) = Inr (xs ! i))"
proof (cases "xs = []")
  case True
  let ?T = "\<lparr>name_' = name, offset_' = length pre, type_' = type, isBinary_' = isBinary,
                 elements_' = [] :: 'a element list, count_' = 0, offSize_' = 0, offsets_' = [],
                 tableLength_' = 2\<rparr>"
  from True buf have b: "buffer binEd = pre @ [0, 0] @ post"
    by (simp add: encodeIndex_def be_bytes_2_0)
  then have "getUint16 (seek (length pre) binEd) = Inr (0, binEd\<lparr>offset := length pre + 2\<rparr>)"
    by (simp add: getUint16_def readUnsigned_Inr_iff seek_def be_value_def)
  then have k: "CffIndex name (length pre) type isBinary binEd =
      Inr (?T, binEd\<lparr>offset := length pre + 2\<rparr>)"
    by (simp add: CffIndex_def)
  have l: "loadStrings ?T (binEd\<lparr>offset := length pre + 2\<rparr>) =
      Inr (?T, binEd\<lparr>offset := length pre + 2\<rparr>\<lparr>offset := dataStart ?T\<rparr>)"
    by (rule loadStrings_count_0) simp
  have g: "getLength ?T = int (length (encodeIndex w (map elementBytes xs)))"
    using True by (simp add: getLength_def encodeIndex_def be_bytes_2_0)
  from True k l g show ?thesis
    by (intro exI[of _ ?T] exI[of _ "binEd\<lparr>offset := length pre + 2\<rparr>"]
        exI[of _ "binEd\<lparr>offset := length pre + 2\<rparr>\<lparr>offset := dataStart ?T\<rparr>"])
      simp
next
  case False
  define es where "es = map elementBytes xs"
  define N where "N = length xs"
  define os where "os = elementOffsets 1 es"
  define A where "A = pre @ be_bytes 2 N @ be_bytes 1 w"
  from False have N1: "1 \<le> N" by (cases xs) (simp_all add: N_def)
  have lN: "length es = N" by (simp add: es_def N_def)
  have lA: "length A = length pre + 3" by (simp add: A_def length_be_bytes)
  have los: "length os = N + 1" by (simp add: os_def length_elementOffsets lN)
  have nth_os: "os ! j = 1 + length (concat (take j es))" if "j \<le> N" for j
    using that by (simp add: os_def nth_elementOffsets lN)
  from False buf have b: "buffer binEd =
      pre @ be_bytes 2 N @ be_bytes 1 w @ concat (map (be_bytes w) os) @ concat es @ post"
    by (simp add: encodeIndex_def es_def N_def os_def)
  have cN: "be_value (be_bytes 2 N) = N"
    using n by (intro be_value_be_bytes) (simp add: N_def)
  have cw: "be_value (be_bytes 1 w) = w"
    using w4 by (intro be_value_be_bytes) simp
  from b have "take 2 (drop (length pre) (buffer binEd)) = be_bytes 2 N"
    by (simp add: length_be_bytes)
  with b cN have g16: "getUint16 (seek (length pre) binEd) = Inr (N, binEd\<lparr>offset := length pre + 2\<rparr>)"
    by (simp add: getUint16_def readUnsigned_Inr_iff seek_def length_be_bytes)
  from b have "drop (length pre + 2) (buffer binEd) =
      be_bytes 1 w @ concat (map (be_bytes w) os) @ concat es @ post"
    by (simp add: length_be_bytes drop_append)
  then have "take 1 (drop (length pre + 2) (buffer binEd)) = be_bytes 1 w"
    by (simp add: length_be_bytes)
  with b cw have g8: "getUint8 (binEd\<lparr>offset := length pre + 2\<rparr>) = Inr (w, binEd\<lparr>offset := length pre + 3\<rparr>)"
    by (simp add: getUint8_def readUnsigned_Inr_iff length_be_bytes)
  have small: "\<forall>v \<in> set os. v < 256 ^ w"
  proof
    fix v assume "v \<in> set os"
    then have "v \<le> 1 + length (concat es)" unfolding os_def by (rule elementOffsets_bound)
    with fit show "v < 256 ^ w" by (simp add: es_def)
  qed
  let ?b2 = "binEd\<lparr>offset := length pre + 3\<rparr>"
  have b2: "buffer ?b2 = A @ concat (map (be_bytes w) os) @ (concat es @ post)"
    using b by (simp add: A_def)
  have o2: "offset ?b2 = length A" by (simp add: lA)
  have lp: "CffIndex_offsets N w 0 [] ?b2 = Inr ([] @ os, ?b2\<lparr>offset := length A + w * length os\<rparr>)"
    using w1 w4 small by (intro CffIndex_offsets_decode[OF b2 o2]) (simp_all add: los)
  let ?b3 = "binEd\<lparr>offset := length A + w * (N + 1)\<rparr>"
  from lp have lp': "CffIndex_offsets N w 0 [] ?b2 = Inr (os, ?b3)"
    by (simp add: los)
  define T :: "'a CffIndex" where
    "T = \<lparr>name_' = name, offset_' = length pre, type_' = type, isBinary_' = isBinary,
           elements_' = [], count_' = N, offSize_' = w, offsets_' = os,
           tableLength_' = int (2 + 1 + (N + 1) * w + os ! N) - 1\<rparr>"
  have T: "count_' T = N" "offsets_' T = os" "isBinary_' T = isBinary" "offSize_' T = w"
    "offset_' T = length pre" "elements_' T = []"
    "tableLength_' T = int (2 + 1 + (N + 1) * w + os ! N) - 1"
    by (simp_all add: T_def)
  from N1 g16 g8 lp' have k: "CffIndex name (length pre) type isBinary binEd = Inr (T, ?b3)"
    by (simp add: CffIndex_def T_def)
  have ds: "dataStart T = length A + w * (N + 1)"
    by (simp add: dataStart_def T lA algebra_simps)
  have lbuf: "length (buffer binEd) = length A + w * (N + 1) + length (concat es) + length post"
    using b by (simp add: A_def length_be_bytes length_concat_be_bytes los)
  have mono: "os ! j \<le> os ! Suc j" if "j < N" for j
    using that nth_os[of j] nth_os[of "Suc j"] by (simp add: concat_take_nth lN)
  have c1: "\<forall>j < count_' T.
      Suc j < length (offsets_' T) \<and> offsets_' T ! j \<le> offsets_' T ! Suc j"
    unfolding T using mono los by simp
  have osN: "os ! N = 1 + length (concat es)" using nth_os[of N] by (simp add: lN)
  have os0: "os ! 0 = 1" using nth_os[of 0] by simp
  have c2: "0 < count_' T \<longrightarrow>
      dataStart T + (offsets_' T ! count_' T - offsets_' T ! 0) \<le> length (buffer ?b3)"
    unfolding T ds by (simp add: osN os0 lbuf)
  note I = loadStrings_Inr_I[OF c1 c2]
  have el: "map (\<lambda>j. element_of (isBinary_' T)
                   (take (offsets_' T ! Suc j - offsets_' T ! j)
                      (drop (dataStart T + (offsets_' T ! j - offsets_' T ! 0))
                         (buffer ?b3))))
              [0..<count_' T] = xs"
    unfolding T ds
  proof (rule nth_equalityI)
    show "length (map (\<lambda>j. element_of isBinary
                   (take (os ! Suc j - os ! j)
                      (drop (length A + w * (N + 1) + (os ! j - os ! 0)) (buffer ?b3))))
              [0..<N]) = length xs"
      by (simp add: N_def)
  next
    fix j assume "j < length (map (\<lambda>j. element_of isBinary
                   (take (os ! Suc j - os ! j)
                      (drop (length A + w * (N + 1) + (os ! j - os ! 0)) (buffer ?b3))))
              [0..<N])"
    then have j: "j < N" by simp
    from j have d: "os ! Suc j - os ! j = length (es ! j)"
      using nth_os[of j] nth_os[of "Suc j"] by (simp add: concat_take_nth lN)
    from j have p: "os ! j - os ! 0 = length (concat (take j es))"
      using nth_os[of j] os0 by simp
    have bb: "buffer binEd = (A @ concat (map (be_bytes w) os)) @ concat es @ post"
      using b by (simp add: A_def)
    have la: "length (A @ concat (map (be_bytes w) os)) = length A + w * (N + 1)"
      by (simp add: length_concat_be_bytes los)
    have dr: "drop (length A + w * (N + 1) + length (concat (take j es))) (buffer binEd) =
        drop (length (concat (take j es))) (concat es @ post)"
      unfolding bb la[symmetric] by (simp only: drop_append) simp
    from j have "j < length es" by (simp add: lN)
    then have tk: "take (length (es ! j))
        (drop (length A + w * (N + 1) + length (concat (take j es))) (buffer binEd)) = es ! j"
      unfolding dr by (rule take_element)
    from j kind have "loadable isBinary (xs ! j)" by (simp add: N_def)
    then have "element_of isBinary (es ! j) = xs ! j"
      using j by (simp add: es_def N_def element_of_elementBytes)
    with j tk show "map (\<lambda>j. element_of isBinary
                   (take (os ! Suc j - os ! j)
                      (drop (length A + w * (N + 1) + (os ! j - os ! 0)) (buffer ?b3))))
              [0..<N] ! j = xs ! j"
      by (simp add: d p)
  qed
  let ?T' = "T\<lparr>elements_' := xs\<rparr>"
  let ?b4 = "?b3\<lparr>offset := dataStart T + (offsets_' T ! count_' T - offsets_' T ! 0)\<rparr>"
  from I have l: "loadStrings T ?b3 = Inr (?T', ?b4)"
    unfolding el by (simp add: T)
  have "int (length (encodeIndex w (map elementBytes xs))) =
      int (2 + 1 + (N + 1) * w + os ! N) - 1"
  proof -
    from False have ne: "es \<noteq> []" by (simp add: es_def)
    have "encodeIndex w es = be_bytes 2 (length es) @ be_bytes 1 w @
           concat (map (be_bytes w) os) @ concat es"
      using ne by (simp add: encodeIndex_def os_def)
    then have "length (encodeIndex w es) = 2 + 1 + w * (N + 1) + length (concat es)"
      by (simp add: length_be_bytes length_concat_be_bytes los)
    then show ?thesis
      by (simp add: osN es_def algebra_simps)
  qed
  then have g: "getLength T = int (length (encodeIndex w (map elementBytes xs)))"
    by (simp add: getLength_def T)
  have ge: "\<forall>i < length xs. getElement ?T' (int i) = Inr (xs ! i)"
    by (simp add: getElement_def)
  have cnt: "count_' T = length xs" by (simp add: T N_def)
  have e': "elements_' ?T' = xs" by simp
  from k cnt g l e' ge show ?thesis
    by (intro exI[of _ T] exI[of _ ?b3] exI[of _ ?T'] exI[of _ ?b4] conjI)
qed


text \<open>
  The strings \<open>A\<close> and \<open>BC\<close> encoded with offset width 2 between two other bytes.
\<close>

lemma loadStrings_round_trip_example:
  "(1::nat) \<le> 2 \<and> (2::nat) \<le> 4 \<and> length [Str ''A'', Str ''BC'' :: unit element] < 65536 \<and>
   length (concat (map elementBytes [Str ''A'', Str ''BC'' :: unit element])) + 1 < 256 ^ 2 \<and>
   loadable False (Str ''A'' :: unit element) \<and> loadable False (Str ''BC'' :: unit element) \<and>
   buffer \<lparr>buffer = [7, 0, 2, 2, 0, 1, 0, 2, 0, 4, 65, 66, 67, 9], offset = 0\<rparr> =
     [7] @ encodeIndex 2 (map elementBytes [Str ''A'', Str ''BC'' :: unit element]) @ [9] \<and>
   (\<exists>this binEd1 this' binEd2.
      CffIndex ''S'' (length [7 :: byte]) 1 False
        \<lparr>buffer = [7, 0, 2, 2, 0, 1, 0, 2, 0, 4, 65, 66, 67, 9], offset = 0\<rparr> =
        Inr (this, binEd1) \<and>
      count_' this = 2 \<and>
      loadStrings this binEd1 = Inr (this', binEd2) \<and>
      getElement this' 0 = Inr (Str ''A'' :: unit element) \<and>
      getElement this' 1 = Inr (Str ''BC''))"
proof -
  let ?xs = "[Str ''A'', Str ''BC'' :: unit element]"
  let ?B = "\<lparr>buffer = [7, 0, 2, 2, 0, 1, 0, 2, 0, 4, 65, 66, 67, 9], offset = 0\<rparr>"
  have h1: "(1::nat) \<le> 2" and h2: "(2::nat) \<le> 4" and h3: "length ?xs < 65536"
    by simp_all
  have h4: "length (concat (map elementBytes ?xs)) + 1 < 256 ^ 2"
    by simp
  have h5a: "loadable False (Str ''A'' :: unit element)"
    and h5b: "loadable False (Str ''BC'' :: unit element)"
    by simp_all
  then have h5: "\<forall>x \<in> set ?xs. loadable False x" by simp
  have h6: "buffer ?B = [7] @ encodeIndex 2 (map elementBytes ?xs) @ [9]"
    unfolding encode_example by simp
  from loadStrings_round_trip[OF h1 h2 h3 h4 h5 h6, of "''S''" 1]
  obtain this binEd1 this' binEd2 where
    k: "CffIndex ''S'' (length [7 :: byte]) 1 False ?B = Inr (this, binEd1)" and
    c: "count_' this = length ?xs" and
    l: "loadStrings this binEd1 = Inr (this', binEd2)" and
    g: "\<forall>i < length ?xs. getElement this' (int i) = Inr (?xs ! i)"
    by blast
  from c have c': "count_' this = 2" by simp
  from g[rule_format, of 0] have g0: "getElement this' 0 = Inr (Str ''A'')" by simp
  from g[rule_format, of 1] have g1: "getElement this' 1 = Inr (Str ''BC'')" by simp
  from k c' l g0 g1 have "CffIndex ''S'' (length [7 :: byte]) 1 False ?B = Inr (this, binEd1) \<and>
      count_' this = 2 \<and>
      loadStrings this binEd1 = Inr (this', binEd2) \<and>
      getElement this' 0 = Inr (Str ''A'' :: unit element) \<and>
      getElement this' 1 = Inr (Str ''BC'')"
    by (intro conjI)
  then have e: "\<exists>this binEd1 this' binEd2.
      CffIndex ''S'' (length [7 :: byte]) 1 False ?B = Inr (this, binEd1) \<and>
      count_' this = 2 \<and>
      loadStrings this binEd1 = Inr (this', binEd2) \<and>
      getElement this' 0 = Inr (Str ''A'' :: unit element) \<and>
      getElement this' 1 = Inr (Str ''BC'')"
    by (intro exI)
  show ?thesis
    by (intro conjI h1 h2 h3 h4 h5a h5b h6 e)
qed


subsection \<open>More concrete runs\<close>

text \<open>
  An INDEX whose first offset is 3 instead of 1; a load over a buffer that ends before
  the data; an INDEX of two DICTs, of two and of three bytes, loaded with a decoder that
  keeps the bytes it is given.
\<close>

lemma shifted_construct:
  "CffIndex name 0 type False \<lparr>buffer = [0, 1, 1, 3, 4, 65, 66, 67], offset = p\<rparr> =
     Inr (\<lparr>name_' = name, offset_' = 0, type_' = type, isBinary_' = False,
           elements_' = [], count_' = 1, offSize_' = 1,
           offsets_' = [3, 4], tableLength_' = 8\<rparr>,
          \<lparr>buffer = [0, 1, 1, 3, 4, 65, 66, 67], offset = 5\<rparr>)"
  by (simp add: CffIndex_def seek_def getUint16_def getUint8_def getOffset_def
        readUnsigned_def readBytes_def be_value_def CffIndex_offsets.simps)

lemma shifted_load:
  "loadStrings \<lparr>name_' = name, offset_' = 0, type_' = type, isBinary_' = False,
           elements_' = [], count_' = 1, offSize_' = 1,
           offsets_' = [3, 4], tableLength_' = 8\<rparr>
       \<lparr>buffer = [0, 1, 1, 3, 4, 65, 66, 67], offset = q\<rparr> =
     Inr (\<lparr>name_' = name, offset_' = 0, type_' = type, isBinary_' = False,
           elements_' = [Str ''A''], count_' = 1, offSize_' = 1,
           offsets_' = [3, 4], tableLength_' = 8\<rparr>,
          \<lparr>buffer = [0, 1, 1, 3, 4, 65, 66, 67], offset = 6\<rparr>)"
  by (simp add: seek_def readBytes_def loadStrings_def dataStart_def loadStrings_loop.simps
        dataLength_def readString_def readSpan_def text_A [simplified])

lemma truncated_load:
  "loadStrings \<lparr>name_' = name, offset_' = 0, type_' = type, isBinary_' = False,
           elements_' = es, count_' = 1, offSize_' = 1,
           offsets_' = [1, 2], tableLength_' = 6\<rparr>
       \<lparr>buffer = [0, 1, 1, 1, 2], offset = q\<rparr> =
     Inl (TruncatedBuffer,
          \<lparr>name_' = name, offset_' = 0, type_' = type, isBinary_' = False,
           elements_' = es, count_' = 1, offSize_' = 1,
           offsets_' = [1, 2], tableLength_' = 6\<rparr>)"
  by (simp add: seek_def readBytes_def loadStrings_def dataStart_def loadStrings_loop.simps
        dataLength_def readString_def readSpan_def)

lemma dict_construct:
  "CffIndex name 0 type False \<lparr>buffer = [0, 2, 1, 1, 3, 6, 139, 15, 247, 0, 17], offset = p\<rparr> =
     Inr (\<lparr>name_' = name, offset_' = 0, type_' = type, isBinary_' = False,
           elements_' = [], count_' = 2, offSize_' = 1,
           offsets_' = [1, 3, 6], tableLength_' = 11\<rparr>,
          \<lparr>buffer = [0, 2, 1, 1, 3, 6, 139, 15, 247, 0, 17], offset = 6\<rparr>)"
  by (simp add: CffIndex_def seek_def getUint16_def getUint8_def getOffset_def
        readUnsigned_def readBytes_def be_value_def CffIndex_offsets.simps)

lemma dict_load:
  "loadDict (\<lambda>name i dataView. Inr dataView)
       \<lparr>name_' = name, offset_' = 0, type_' = type, isBinary_' = False,
           elements_' = [], count_' = 2, offSize_' = 1,
           offsets_' = [1, 3, 6], tableLength_' = 11\<rparr>
       \<lparr>buffer = [0, 2, 1, 1, 3, 6, 139, 15, 247, 0, 17], offset = q\<rparr> =
     Inr (\<lparr>name_' = name, offset_' = 0, type_' = type, isBinary_' = False,
           elements_' = [Dict [139, 15], Dict [139, 15, 247]], count_' = 2, offSize_' = 1,
           offsets_' = [1, 3, 6], tableLength_' = 11\<rparr>,
          \<lparr>buffer = [0, 2, 1, 1, 3, 6, 139, 15, 247, 0, 17], offset = 6\<rparr>)"
  by (simp add: seek_def loadDict_def dataStart_def loadDict_loop.simps dataLength_def
        newDataView_def)

subsection \<open>The claims\<close>

text \<open>
  Claim C1. When construction returns an object whose count is at least 1, the count is
  the big-endian value of the two bytes at the source offset, the offset width is the byte
  after them, the offset array holds the \<open>count + 1\<close> big-endian integers of that width
  that follow, and \<open>getLength\<close> returns
  \<open>2 + 1 + (count + 1) * offSize + (offsets[count] - 1)\<close>.
\<close>

theorem tableLength_formula:
  assumes "CffIndex name offs type isBinary binEd = Inr (this, binEd')" and "1 \<le> count_' this"
  shows "count_' this = be_value (take 2 (drop offs (buffer binEd))) \<and>
         offSize_' this = be_value (take 1 (drop (offs + 2) (buffer binEd))) \<and>
         length (offsets_' this) = count_' this + 1 \<and>
         (\<forall>i \<le> count_' this. offsets_' this ! i =
            be_value (take (offSize_' this) (drop (offs + 3 + i * offSize_' this) (buffer binEd)))) \<and>
         getLength this =
           2 + 1 + (int (count_' this) + 1) * int (offSize_' this) +
           (int (offsets_' this ! count_' this) - 1)"
proof -
  note r = CffIndex_Inr(1)[OF assms]
  have c: "count_' this = be_value (take 2 (drop offs (buffer binEd)))"
    by (subst r) simp
  have w: "offSize_' this = be_value (take 1 (drop (offs + 2) (buffer binEd)))"
    by (subst r) simp
  have o: "offsets_' this = map (\<lambda>j. be_value (take (offSize_' this)
             (drop (offs + 3 + j * offSize_' this) (buffer binEd)))) [0..<count_' this + 1]"
    by (subst r) simp
  have l: "length (offsets_' this) = count_' this + 1"
    by (subst o) simp
  have n: "\<forall>i \<le> count_' this. offsets_' this ! i =
            be_value (take (offSize_' this) (drop (offs + 3 + i * offSize_' this) (buffer binEd)))"
  proof (intro allI impI)
    fix i assume "i \<le> count_' this"
    then have "i < length [0..<count_' this + 1]" by simp
    then show "offsets_' this ! i =
            be_value (take (offSize_' this) (drop (offs + 3 + i * offSize_' this) (buffer binEd)))"
      by (subst o) (simp add: nth_map_upt del: upt_Suc)
  qed
  have t: "tableLength_' this =
      int (2 + 1 + (count_' this + 1) * offSize_' this + offsets_' this ! count_' this) - 1"
    by (subst r) simp
  have g: "getLength this =
           2 + 1 + (int (count_' this) + 1) * int (offSize_' this) +
           (int (offsets_' this ! count_' this) - 1)"
    unfolding getLength_def t by (simp add: algebra_simps)
  from c w l n g show ?thesis by blast
qed


text \<open>
  The formula on the nine bytes of the specification's scenario.
\<close>

theorem tableLength_formula_witness:
  "CffIndex ''S'' 0 1 False \<lparr>buffer = [0, 2, 1, 1, 2, 4, 65, 66, 67], offset = 0\<rparr> =
     Inr (\<lparr>name_' = ''S'', offset_' = 0, type_' = 1, isBinary_' = False,
           elements_' = [] :: unit element list,
           count_' = 2, offSize_' = 1, offsets_' = [1, 2, 4], tableLength_' = 9\<rparr>,
          \<lparr>buffer = [0, 2, 1, 1, 2, 4, 65, 66, 67], offset = 6\<rparr>) \<and>
   getLength \<lparr>name_' = ''S'', offset_' = 0, type_' = 1, isBinary_' = False,
           elements_' = [] :: unit element list,
           count_' = 2, offSize_' = 1, offsets_' = [1, 2, 4], tableLength_' = 9\<rparr> =
     2 + 1 + (2 + 1) * 1 + (4 - 1)"
proof -
  have h: "CffIndex ''S'' 0 1 False \<lparr>buffer = [0, 2, 1, 1, 2, 4, 65, 66, 67], offset = 0\<rparr> =
     Inr (\<lparr>name_' = ''S'', offset_' = 0, type_' = 1, isBinary_' = False,
           elements_' = [] :: unit element list,
           count_' = 2, offSize_' = 1, offsets_' = [1, 2, 4], tableLength_' = 9\<rparr>,
          \<lparr>buffer = [0, 2, 1, 1, 2, 4, 65, 66, 67], offset = 6\<rparr>)"
    by (simp add: CffIndex_def seek_def getUint16_def getUint8_def getOffset_def
        readUnsigned_def readBytes_def be_value_def CffIndex_offsets.simps)
  from tableLength_formula[OF h] h show ?thesis by (simp add: be_value_def)
qed

text \<open>
  Claim C2. When the two bytes at the source offset decode to a count of 0, construction
  returns an object with offset width 0, no offsets and table length 2, and leaves the
  cursor right after the count field. It reads nothing else: over the buffer cut off after
  these two bytes it returns the same object.
\<close>

theorem empty_index_construction:
  assumes "offs + 2 \<le> length (buffer binEd)"
    and "be_value (take 2 (drop offs (buffer binEd))) = 0"
  shows "CffIndex name offs type isBinary binEd =
           Inr (\<lparr>name_' = name, offset_' = offs, type_' = type, isBinary_' = isBinary,
                 elements_' = [], count_' = 0, offSize_' = 0, offsets_' = [],
                 tableLength_' = 2\<rparr>, binEd\<lparr>offset := offs + 2\<rparr>) \<and>
         CffIndex name offs type isBinary (binEd\<lparr>buffer := take (offs + 2) (buffer binEd)\<rparr>) =
           Inr (\<lparr>name_' = name, offset_' = offs, type_' = type, isBinary_' = isBinary,
                 elements_' = [], count_' = 0, offSize_' = 0, offsets_' = [],
                 tableLength_' = 2\<rparr>,
                binEd\<lparr>buffer := take (offs + 2) (buffer binEd), offset := offs + 2\<rparr>)"
proof -
  from assms have "getUint16 (seek offs binEd) = Inr (0, binEd\<lparr>offset := offs + 2\<rparr>)"
    by (simp add: getUint16_def readUnsigned_Inr_iff seek_def)
  then have 1: "CffIndex name offs type isBinary binEd =
           Inr (\<lparr>name_' = name, offset_' = offs, type_' = type, isBinary_' = isBinary,
                 elements_' = [], count_' = 0, offSize_' = 0, offsets_' = [],
                 tableLength_' = 2\<rparr>, binEd\<lparr>offset := offs + 2\<rparr>)"
    by (simp add: CffIndex_def)
  let ?t = "binEd\<lparr>buffer := take (offs + 2) (buffer binEd)\<rparr>"
  from assms have "getUint16 (seek offs ?t) = Inr (0, ?t\<lparr>offset := offs + 2\<rparr>)"
    by (simp add: getUint16_def readUnsigned_Inr_iff seek_def drop_take)
  then have 2: "CffIndex name offs type isBinary ?t =
           Inr (\<lparr>name_' = name, offset_' = offs, type_' = type, isBinary_' = isBinary,
                 elements_' = [], count_' = 0, offSize_' = 0, offsets_' = [],
                 tableLength_' = 2\<rparr>, ?t\<lparr>offset := offs + 2\<rparr>)"
    by (simp add: CffIndex_def)
  from 1 2 show ?thesis by simp
qed

text \<open>
  An empty INDEX at offset 2 of a buffer, followed by one more byte or by nothing.
\<close>

theorem empty_index_construction_witness:
  "2 + 2 \<le> length (buffer \<lparr>buffer = [9, 9, 0, 0, 5], offset = 7\<rparr>) \<and>
   be_value (take 2 (drop 2 (buffer \<lparr>buffer = [9, 9, 0, 0, 5], offset = 7\<rparr>))) = 0 \<and>
   CffIndex ''S'' 2 2 False \<lparr>buffer = [9, 9, 0, 0, 5], offset = 7\<rparr> =
     Inr (\<lparr>name_' = ''S'', offset_' = 2, type_' = 2, isBinary_' = False,
           elements_' = [] :: unit element list, count_' = 0, offSize_' = 0, offsets_' = [],
           tableLength_' = 2\<rparr>, \<lparr>buffer = [9, 9, 0, 0, 5], offset = 4\<rparr>) \<and>
   CffIndex ''S'' 2 2 False \<lparr>buffer = [9, 9, 0, 0], offset = 7\<rparr> =
     Inr (\<lparr>name_' = ''S'', offset_' = 2, type_' = 2, isBinary_' = False,
           elements_' = [] :: unit element list, count_' = 0, offSize_' = 0, offsets_' = [],
           tableLength_' = 2\<rparr>, \<lparr>buffer = [9, 9, 0, 0], offset = 4\<rparr>)"
proof -
  have h1: "2 + 2 \<le> length (buffer \<lparr>buffer = [9, 9, 0, 0, 5], offset = 7\<rparr>)" by simp
  have h2: "be_value (take 2 (drop 2 (buffer \<lparr>buffer = [9, 9, 0, 0, 5], offset = 7\<rparr>))) = 0"
    by (simp add: be_value_def)
  from empty_index_construction[OF h1 h2, of "''S''" 2 False] h1 h2 show ?thesis by simp
qed

text \<open>
  Claim C5. Over the bytes \<open>00 02, 01, 01 02 04, 'A', 'B' 'C'\<close> at source offset 0,
  construction gives count 2 and table length 9; \<open>loadStrings\<close> then makes element 0 the
  string \<open>A\<close> and element 1 the string \<open>BC\<close>.
\<close>

theorem concrete_scenario:
  "CffIndex name 0 type False \<lparr>buffer = [0, 2, 1, 1, 2, 4, 65, 66, 67], offset = p\<rparr> =
     Inr (\<lparr>name_' = name, offset_' = 0, type_' = type, isBinary_' = False,
           elements_' = [] :: 'd element list, count_' = 2, offSize_' = 1,
           offsets_' = [1, 2, 4], tableLength_' = 9\<rparr>,
          \<lparr>buffer = [0, 2, 1, 1, 2, 4, 65, 66, 67], offset = 6\<rparr>) \<and>
   getLength \<lparr>name_' = name, offset_' = 0, type_' = type, isBinary_' = False,
           elements_' = [] :: 'd element list, count_' = 2, offSize_' = 1,
           offsets_' = [1, 2, 4], tableLength_' = 9\<rparr> = 9 \<and>
   loadStrings \<lparr>name_' = name, offset_' = 0, type_' = type, isBinary_' = False,
           elements_' = [] :: 'd element list, count_' = 2, offSize_' = 1,
           offsets_' = [1, 2, 4], tableLength_' = 9\<rparr>
       \<lparr>buffer = [0, 2, 1, 1, 2, 4, 65, 66, 67], offset = q\<rparr> =
     Inr (\<lparr>name_' = name, offset_' = 0, type_' = type, isBinary_' = False,
           elements_' = [Str ''A'', Str ''BC''] :: 'd element list, count_' = 2, offSize_' = 1,
           offsets_' = [1, 2, 4], tableLength_' = 9\<rparr>,
          \<lparr>buffer = [0, 2, 1, 1, 2, 4, 65, 66, 67], offset = 9\<rparr>) \<and>
   getElement \<lparr>name_' = name, offset_' = 0, type_' = type, isBinary_' = False,
           elements_' = [Str ''A'', Str ''BC''] :: 'd element list, count_' = 2, offSize_' = 1,
           offsets_' = [1, 2, 4], tableLength_' = 9\<rparr> 0 = Inr (Str ''A'') \<and>
   getElement \<lparr>name_' = name, offset_' = 0, type_' = type, isBinary_' = False,
           elements_' = [Str ''A'', Str ''BC''] :: 'd element list, count_' = 2, offSize_' = 1,
           offsets_' = [1, 2, 4], tableLength_' = 9\<rparr> 1 = Inr (Str ''BC'')"
proof (intro conjI)
  show "CffIndex name 0 type False \<lparr>buffer = [0, 2, 1, 1, 2, 4, 65, 66, 67], offset = p\<rparr> =
     Inr (\<lparr>name_' = name, offset_' = 0, type_' = type, isBinary_' = False,
           elements_' = [] :: 'd element list, count_' = 2, offSize_' = 1,
           offsets_' = [1, 2, 4], tableLength_' = 9\<rparr>,
          \<lparr>buffer = [0, 2, 1, 1, 2, 4, 65, 66, 67], offset = 6\<rparr>)"
    by (rule scenario_construct)
  show "loadStrings \<lparr>name_' = name, offset_' = 0, type_' = type, isBinary_' = False,
           elements_' = [] :: 'd element list, count_' = 2, offSize_' = 1,
           offsets_' = [1, 2, 4], tableLength_' = 9\<rparr>
       \<lparr>buffer = [0, 2, 1, 1, 2, 4, 65, 66, 67], offset = q\<rparr> =
     Inr (\<lparr>name_' = name, offset_' = 0, type_' = type, isBinary_' = False,
           elements_' = [Str ''A'', Str ''BC''] :: 'd element list, count_' = 2, offSize_' = 1,
           offsets_' = [1, 2, 4], tableLength_' = 9\<rparr>,
          \<lparr>buffer = [0, 2, 1, 1, 2, 4, 65, 66, 67], offset = 9\<rparr>)"
    by (rule scenario_load)
qed (simp_all add: getLength_def getElement_def)


text \<open>
  Claim C7, as amended. For an object constructed with count 0, \<open>getLength\<close> returns 2 and
  \<open>loadStrings\<close> and \<open>loadDict\<close> return the object unchanged, its elements still empty,
  over an unchanged buffer; what they do change is the position of the cursor, which the
  seek to the start of the data region sets to the source offset plus 3.
\<close>

theorem empty_index_load:
  assumes "CffIndex name offs type isBinary binEd = Inr (this, binEd')" and "count_' this = 0"
  shows "getLength this = 2 \<and> elements_' this = [] \<and>
         loadStrings this c = Inr (this, c\<lparr>offset := offs + 3\<rparr>) \<and>
         loadDict cffDict this c = Inr (this, c\<lparr>offset := offs + 3\<rparr>)"
proof -
  note t = CffIndex_count_0(1)[OF assms]
  have d: "dataStart this = offs + 3" by (subst t) (simp add: dataStart_def)
  have g: "getLength this = 2" by (subst t) (simp add: getLength_def)
  have e: "elements_' this = []" by (subst t) simp
  have s: "loadStrings this c = Inr (this, c\<lparr>offset := offs + 3\<rparr>)"
    unfolding loadStrings_def d using assms(2)
    by (subst loadStrings_loop.simps) (simp add: seek_def)
  have l: "loadDict cffDict this c = Inr (this, c\<lparr>offset := offs + 3\<rparr>)"
    unfolding loadDict_def d using assms(2)
    by (subst loadDict_loop.simps) (simp add: seek_def)
  from g e s l show ?thesis by simp
qed

text \<open>
  The empty INDEX \<open>00 00\<close>: \<open>loadStrings\<close> returns the object as it was.
\<close>

theorem empty_index_load_witness:
  "CffIndex ''S'' 0 1 False \<lparr>buffer = [0, 0], offset = 0\<rparr> =
     Inr (\<lparr>name_' = ''S'', offset_' = 0, type_' = 1, isBinary_' = False,
           elements_' = [] :: unit element list, count_' = 0, offSize_' = 0, offsets_' = [],
           tableLength_' = 2\<rparr>, \<lparr>buffer = [0, 0], offset = 2\<rparr>) \<and>
   loadStrings \<lparr>name_' = ''S'', offset_' = 0, type_' = 1, isBinary_' = False,
           elements_' = [] :: unit element list, count_' = 0, offSize_' = 0, offsets_' = [],
           tableLength_' = 2\<rparr> \<lparr>buffer = [0, 0], offset = 2\<rparr> =
     Inr (\<lparr>name_' = ''S'', offset_' = 0, type_' = 1, isBinary_' = False,
           elements_' = [] :: unit element list, count_' = 0, offSize_' = 0, offsets_' = [],
           tableLength_' = 2\<rparr>, \<lparr>buffer = [0, 0], offset = 3\<rparr>)"
proof -
  have h: "CffIndex ''S'' 0 1 False \<lparr>buffer = [0, 0], offset = 0\<rparr> =
     Inr (\<lparr>name_' = ''S'', offset_' = 0, type_' = 1, isBinary_' = False,
           elements_' = [] :: unit element list, count_' = 0, offSize_' = 0, offsets_' = [],
           tableLength_' = 2\<rparr>, \<lparr>buffer = [0, 0], offset = 2\<rparr>)"
    by (simp add: CffIndex_def seek_def getUint16_def readUnsigned_def readBytes_def be_value_def)
  from empty_index_load[OF h, of "\<lparr>buffer = [0, 0], offset = 2\<rparr>"] h show ?thesis
    by simp
qed

text \<open>
  Over the buffer \<open>00 00\<close> the constructor leaves the cursor at 2; \<open>loadStrings\<close> on the
  object it returned does not return that same state, for it leaves the cursor at 3.
\<close>

theorem load_moves_cursor_counterexample:
  "CffIndex ''S'' 0 1 False \<lparr>buffer = [0, 0], offset = 0\<rparr> =
     Inr (\<lparr>name_' = ''S'', offset_' = 0, type_' = 1, isBinary_' = False,
           elements_' = [] :: unit element list, count_' = 0, offSize_' = 0, offsets_' = [],
           tableLength_' = 2\<rparr>, \<lparr>buffer = [0, 0], offset = 2\<rparr>) \<and>
   loadStrings \<lparr>name_' = ''S'', offset_' = 0, type_' = 1, isBinary_' = False,
           elements_' = [] :: unit element list, count_' = 0, offSize_' = 0, offsets_' = [],
           tableLength_' = 2\<rparr> \<lparr>buffer = [0, 0], offset = 2\<rparr> \<noteq>
     Inr (\<lparr>name_' = ''S'', offset_' = 0, type_' = 1, isBinary_' = False,
           elements_' = [] :: unit element list, count_' = 0, offSize_' = 0, offsets_' = [],
           tableLength_' = 2\<rparr>, \<lparr>buffer = [0, 0], offset = 2\<rparr>)"
  by (simp add: CffIndex_def seek_def getUint16_def readUnsigned_def readBytes_def be_value_def
      loadStrings_def dataStart_def loadStrings_loop.simps)

text \<open>
  Claim C8. Whether \<open>loadStrings\<close> returns or throws, the object it leaves differs from the
  one it was called on in its elements only: the offsets, the table length, the count,
  the offset width, the source offset, the name, the type and the binary flag are the
  same.
\<close>

theorem loadStrings_frame:
  "offsets_' (objectAfter (loadStrings this binEd)) = offsets_' this \<and>
   tableLength_' (objectAfter (loadStrings this binEd)) = tableLength_' this \<and>
   count_' (objectAfter (loadStrings this binEd)) = count_' this \<and>
   offSize_' (objectAfter (loadStrings this binEd)) = offSize_' this \<and>
   offset_' (objectAfter (loadStrings this binEd)) = offset_' this \<and>
   name_' (objectAfter (loadStrings this binEd)) = name_' this \<and>
   type_' (objectAfter (loadStrings this binEd)) = type_' this \<and>
   isBinary_' (objectAfter (loadStrings this binEd)) = isBinary_' this"
proof -
  from loadStrings_loop_frame[OF refl, where this = this and i = 0
      and b = "seek (dataStart this) binEd"]
  obtain es where "objectAfter (loadStrings this binEd) = this\<lparr>elements_' := elements_' this @ es\<rparr>"
    unfolding loadStrings_def by blast
  then show ?thesis by simp
qed


text \<open>
  Claim C6, as amended. Construction validates nothing and never fails with
  \<open>MalformedIndex\<close>: its only failures are those of the cursor's reads. Whenever the count
  (at least 1), an offset width from 1 to 4 and the \<open>count + 1\<close> offsets lie inside the
  buffer, it returns an object whose table length is
  \<open>2 + 1 + (count + 1) * offSize + offsets[count] - 1\<close>, whether or not the offsets
  decrease or the table length exceeds the buffer.
\<close>

theorem construction_not_validated:
  "(\<forall>e. CffIndex name offs type isBinary binEd = Inl e \<longrightarrow>
        e = TruncatedBuffer \<or> e = OutsideInterface) \<and>
   CffIndex name offs type isBinary binEd \<noteq> Inl MalformedIndex \<and>
   (1 \<le> count \<and> count = be_value (take 2 (drop offs (buffer binEd))) \<and>
    w = be_value (take 1 (drop (offs + 2) (buffer binEd))) \<and> 1 \<le> w \<and> w \<le> 4 \<and>
    offs + 3 + (count + 1) * w \<le> length (buffer binEd) \<longrightarrow>
      (\<exists>this binEd'. CffIndex name offs type isBinary binEd = Inr (this, binEd') \<and>
         count_' this = count \<and> offSize_' this = w \<and>
         getLength this = int (2 + 1 + (count + 1) * w + offsets_' this ! count) - 1))"
proof -
  have 1: "\<forall>e. CffIndex name offs type isBinary binEd = Inl e \<longrightarrow>
        e = TruncatedBuffer \<or> e = OutsideInterface"
    using CffIndex_Inl by blast
  then have 2: "CffIndex name offs type isBinary binEd \<noteq> Inl MalformedIndex"
    by auto
  have 3: "\<exists>this binEd'. CffIndex name offs type isBinary binEd = Inr (this, binEd') \<and>
         count_' this = count \<and> offSize_' this = w \<and>
         getLength this = int (2 + 1 + (count + 1) * w + offsets_' this ! count) - 1"
    if "1 \<le> count" and "count = be_value (take 2 (drop offs (buffer binEd)))"
      and "w = be_value (take 1 (drop (offs + 2) (buffer binEd)))"
      and "1 \<le> w" and "w \<le> 4"
      and "offs + 3 + (count + 1) * w \<le> length (buffer binEd)"
    unfolding getLength_def using that by (rule CffIndex_total)
  from 1 2 3 show ?thesis by blast
qed

text \<open>
  The INDEX \<open>00 01, 01, 02 01\<close>, whose offsets decrease, is constructed.
\<close>

theorem construction_not_validated_witness:
  "(1::nat) \<le> 1 \<and> (1::nat) = be_value (take 2 (drop 0 (buffer \<lparr>buffer = [0, 1, 1, 2, 1], offset = 0\<rparr>))) \<and>
   (1::nat) = be_value (take 1 (drop (0 + 2) (buffer \<lparr>buffer = [0, 1, 1, 2, 1], offset = 0\<rparr>))) \<and>
   (1::nat) \<le> 4 \<and>
   0 + 3 + (1 + 1) * 1 \<le> length (buffer \<lparr>buffer = [0, 1, 1, 2, 1], offset = 0\<rparr>) \<and>
   (\<exists>this binEd'. CffIndex ''S'' 0 1 False \<lparr>buffer = [0, 1, 1, 2, 1], offset = 0\<rparr> =
        Inr (this :: unit CffIndex, binEd') \<and>
      count_' this = 1 \<and> offSize_' this = 1 \<and>
      getLength this = int (2 + 1 + (1 + 1) * 1 + offsets_' this ! 1) - 1)"
proof -
  have h: "(1::nat) \<le> 1 \<and> (1::nat) = be_value (take 2 (drop 0 (buffer \<lparr>buffer = [0, 1, 1, 2, 1], offset = 0\<rparr>))) \<and>
   (1::nat) = be_value (take 1 (drop (0 + 2) (buffer \<lparr>buffer = [0, 1, 1, 2, 1], offset = 0\<rparr>))) \<and>
   (1::nat) \<le> 1 \<and> (1::nat) \<le> 4 \<and>
   0 + 3 + (1 + 1) * 1 \<le> length (buffer \<lparr>buffer = [0, 1, 1, 2, 1], offset = 0\<rparr>)"
    by (simp add: be_value_def)
  from construction_not_validated[of "''S''" 0 1 False "\<lparr>buffer = [0, 1, 1, 2, 1], offset = 0\<rparr>" 1 1]
  have "\<exists>this binEd'. CffIndex ''S'' 0 1 False \<lparr>buffer = [0, 1, 1, 2, 1], offset = 0\<rparr> =
        Inr (this :: unit CffIndex, binEd') \<and>
      count_' this = 1 \<and> offSize_' this = 1 \<and>
      getLength this = int (2 + 1 + (1 + 1) * 1 + offsets_' this ! 1) - 1"
    using h by blast
  with h show ?thesis by blast
qed

text \<open>
  Construction accepts the decreasing offsets 2, 1, and it accepts offsets that give a
  table length of 13 over a buffer of 5 bytes.
\<close>

theorem malformed_accepted_counterexample:
  "CffIndex ''S'' 0 1 False \<lparr>buffer = [0, 1, 1, 2, 1], offset = 0\<rparr> =
     Inr (\<lparr>name_' = ''S'', offset_' = 0, type_' = 1, isBinary_' = False,
           elements_' = [] :: unit element list, count_' = 1, offSize_' = 1,
           offsets_' = [2, 1], tableLength_' = 5\<rparr>,
          \<lparr>buffer = [0, 1, 1, 2, 1], offset = 5\<rparr>) \<and>
   CffIndex ''S'' 0 1 False \<lparr>buffer = [0, 1, 1, 1, 9], offset = 0\<rparr> =
     Inr (\<lparr>name_' = ''S'', offset_' = 0, type_' = 1, isBinary_' = False,
           elements_' = [] :: unit element list, count_' = 1, offSize_' = 1,
           offsets_' = [1, 9], tableLength_' = 13\<rparr>,
          \<lparr>buffer = [0, 1, 1, 1, 9], offset = 5\<rparr>)"
  by (simp add: CffIndex_def seek_def getUint16_def getUint8_def getOffset_def
        readUnsigned_def readBytes_def be_value_def CffIndex_offsets.simps)

text \<open>
  Claim C4, as amended. \<open>getElement\<close> returns the stored element when the index is one of
  \<open>0 .. elements.length - 1\<close> and otherwise throws a \<open>RangeError\<close> whose message names the
  INDEX and the index. In particular every call fails while the elements are empty, as
  they are on the object the constructor returns, and every call with an index of at
  least the count fails on the object that one completed load operation leaves.
\<close>

theorem getElement_contract:
  "(0 \<le> i \<and> i < int (length (elements_' this)) \<longrightarrow>
      getElement this i = Inr (elements_' this ! nat i)) \<and>
   (\<not> (0 \<le> i \<and> i < int (length (elements_' this))) \<longrightarrow>
      getElement this i =
        Inl (RangeError (''CFF '' @ name_' this @ '' INDEX: invalid index: '') i)) \<and>
   (elements_' this = [] \<longrightarrow>
      getElement this i =
        Inl (RangeError (''CFF '' @ name_' this @ '' INDEX: invalid index: '') i)) \<and>
   (CffIndex name offs type isBinary binEd = Inr (this0, binEd0) \<longrightarrow>
      getElement this0 i =
        Inl (RangeError (''CFF '' @ name @ '' INDEX: invalid index: '') i) \<and>
      ((loadStrings this0 c = Inr (this1, c1) \<or> loadDict cffDict this0 c = Inr (this1, c1)) \<and>
       int (count_' this0) \<le> i \<longrightarrow>
         getElement this1 i =
           Inl (RangeError (''CFF '' @ name @ '' INDEX: invalid index: '') i)))"
proof -
  have a: "0 \<le> i \<and> i < int (length (elements_' this)) \<longrightarrow>
      getElement this i = Inr (elements_' this ! nat i)"
    by (simp add: getElement_def)
  have b: "\<not> (0 \<le> i \<and> i < int (length (elements_' this))) \<longrightarrow>
      getElement this i =
        Inl (RangeError (''CFF '' @ name_' this @ '' INDEX: invalid index: '') i)"
    by (simp add: getElement_def)
  have c: "elements_' this = [] \<longrightarrow>
      getElement this i =
        Inl (RangeError (''CFF '' @ name_' this @ '' INDEX: invalid index: '') i)"
    by (auto simp: getElement_def)
  have d: "getElement this0 i =
        Inl (RangeError (''CFF '' @ name @ '' INDEX: invalid index: '') i)"
    if "CffIndex name offs type isBinary binEd = Inr (this0, binEd0)"
    using CffIndex_fields(1,5)[OF that] by (simp add: getElement_def)
  have e: "getElement this1 i =
           Inl (RangeError (''CFF '' @ name @ '' INDEX: invalid index: '') i)"
    if k: "CffIndex name offs type isBinary binEd = Inr (this0, binEd0)"
      and l: "loadStrings this0 c = Inr (this1, c1) \<or> loadDict cffDict this0 c = Inr (this1, c1)"
      and i: "int (count_' this0) \<le> i"
  proof -
    note f = CffIndex_fields(1,5)[OF k]
    from l have "length (elements_' this1) = count_' this0 \<and> name_' this1 = name"
    proof
      assume s: "loadStrings this0 c = Inr (this1, c1)"
      show ?thesis by (subst loadStrings_Inr_eq(1)[OF s])+ (simp add: f)
    next
      assume s: "loadDict cffDict this0 c = Inr (this1, c1)"
      from loadDict_length[OF s] f show ?thesis by simp
    qed
    with i show ?thesis by (simp add: getElement_def)
  qed
  from a b c d e show ?thesis by blast
qed


text \<open>
  The scenario's INDEX before and after \<open>loadStrings\<close>: indices 0 and 2 fail, index 1 of
  the loaded object returns \<open>BC\<close>.
\<close>

theorem getElement_contract_witness:
  "CffIndex ''S'' 0 1 False \<lparr>buffer = [0, 2, 1, 1, 2, 4, 65, 66, 67], offset = 0\<rparr> =
     Inr (\<lparr>name_' = ''S'', offset_' = 0, type_' = 1, isBinary_' = False,
           elements_' = [] :: unit element list, count_' = 2, offSize_' = 1,
           offsets_' = [1, 2, 4], tableLength_' = 9\<rparr>,
          \<lparr>buffer = [0, 2, 1, 1, 2, 4, 65, 66, 67], offset = 6\<rparr>) \<and>
   getElement \<lparr>name_' = ''S'', offset_' = 0, type_' = 1, isBinary_' = False,
           elements_' = [] :: unit element list, count_' = 2, offSize_' = 1,
           offsets_' = [1, 2, 4], tableLength_' = 9\<rparr> 0 =
     Inl (RangeError ''CFF S INDEX: invalid index: '' 0) \<and>
   loadStrings \<lparr>name_' = ''S'', offset_' = 0, type_' = 1, isBinary_' = False,
           elements_' = [] :: unit element list, count_' = 2, offSize_' = 1,
           offsets_' = [1, 2, 4], tableLength_' = 9\<rparr>
       \<lparr>buffer = [0, 2, 1, 1, 2, 4, 65, 66, 67], offset = 6\<rparr> =
     Inr (\<lparr>name_' = ''S'', offset_' = 0, type_' = 1, isBinary_' = False,
           elements_' = [Str ''A'', Str ''BC''] :: unit element list, count_' = 2, offSize_' = 1,
           offsets_' = [1, 2, 4], tableLength_' = 9\<rparr>,
          \<lparr>buffer = [0, 2, 1, 1, 2, 4, 65, 66, 67], offset = 9\<rparr>) \<and>
   getElement \<lparr>name_' = ''S'', offset_' = 0, type_' = 1, isBinary_' = False,
           elements_' = [Str ''A'', Str ''BC''] :: unit element list, count_' = 2, offSize_' = 1,
           offsets_' = [1, 2, 4], tableLength_' = 9\<rparr> 1 = Inr (Str ''BC'') \<and>
   getElement \<lparr>name_' = ''S'', offset_' = 0, type_' = 1, isBinary_' = False,
           elements_' = [Str ''A'', Str ''BC''] :: unit element list, count_' = 2, offSize_' = 1,
           offsets_' = [1, 2, 4], tableLength_' = 9\<rparr> 2 =
     Inl (RangeError ''CFF S INDEX: invalid index: '' 2)"
proof -
  let ?b = "\<lparr>buffer = [0, 2, 1, 1, 2, 4, 65, 66, 67], offset = 0\<rparr>"
  let ?b1 = "\<lparr>buffer = [0, 2, 1, 1, 2, 4, 65, 66, 67], offset = 6\<rparr>"
  let ?b2 = "\<lparr>buffer = [0, 2, 1, 1, 2, 4, 65, 66, 67], offset = 9\<rparr>"
  let ?t0 = "\<lparr>name_' = ''S'', offset_' = 0, type_' = 1, isBinary_' = False,
           elements_' = [] :: unit element list, count_' = 2, offSize_' = 1,
           offsets_' = [1, 2, 4], tableLength_' = 9\<rparr>"
  let ?t1 = "\<lparr>name_' = ''S'', offset_' = 0, type_' = 1, isBinary_' = False,
           elements_' = [Str ''A'', Str ''BC''] :: unit element list, count_' = 2, offSize_' = 1,
           offsets_' = [1, 2, 4], tableLength_' = 9\<rparr>"
  have k: "CffIndex ''S'' 0 1 False ?b = Inr (?t0, ?b1)"
    by (rule scenario_construct)
  have l: "loadStrings ?t0 ?b1 = Inr (?t1, ?b2)"
    by (rule scenario_load)
  note g = getElement_contract[where name = "''S''" and offs = 0 and type = 1 and isBinary = False
      and binEd = ?b and ?this0.0 = ?t0 and binEd0 = ?b1 and c = ?b1 and ?this1.0 = ?t1
      and ?c1.0 = ?b2 and this = ?t1]
  have 1: "getElement ?t0 0 = Inl (RangeError ''CFF S INDEX: invalid index: '' 0)"
    using g[where i = 0] k by simp
  have 2: "getElement ?t1 1 = Inr (Str ''BC'')"
    using g[where i = 1] by simp
  have 3: "getElement ?t1 2 = Inl (RangeError ''CFF S INDEX: invalid index: '' 2)"
    using g[where i = 2] k l by simp
  from k 1 l 2 3 show ?thesis by blast
qed

text \<open>
  After two calls of \<open>loadStrings\<close> on an INDEX of one element, \<open>getElement 1\<close> returns an
  element although the index 1 is not below the count 1.
\<close>

theorem getElement_beyond_count_counterexample:
  "CffIndex ''S'' 0 1 False \<lparr>buffer = [0, 1, 1, 1, 2, 65], offset = 0\<rparr> =
     Inr (\<lparr>name_' = ''S'', offset_' = 0, type_' = 1, isBinary_' = False,
           elements_' = [] :: unit element list, count_' = 1, offSize_' = 1,
           offsets_' = [1, 2], tableLength_' = 6\<rparr>,
          \<lparr>buffer = [0, 1, 1, 1, 2, 65], offset = 5\<rparr>) \<and>
   loadStrings \<lparr>name_' = ''S'', offset_' = 0, type_' = 1, isBinary_' = False,
           elements_' = [] :: unit element list, count_' = 1, offSize_' = 1,
           offsets_' = [1, 2], tableLength_' = 6\<rparr>
       \<lparr>buffer = [0, 1, 1, 1, 2, 65], offset = 5\<rparr> =
     Inr (\<lparr>name_' = ''S'', offset_' = 0, type_' = 1, isBinary_' = False,
           elements_' = [Str ''A''] :: unit element list, count_' = 1, offSize_' = 1,
           offsets_' = [1, 2], tableLength_' = 6\<rparr>,
          \<lparr>buffer = [0, 1, 1, 1, 2, 65], offset = 6\<rparr>) \<and>
   loadStrings \<lparr>name_' = ''S'', offset_' = 0, type_' = 1, isBinary_' = False,
           elements_' = [Str ''A''] :: unit element list, count_' = 1, offSize_' = 1,
           offsets_' = [1, 2], tableLength_' = 6\<rparr>
       \<lparr>buffer = [0, 1, 1, 1, 2, 65], offset = 6\<rparr> =
     Inr (\<lparr>name_' = ''S'', offset_' = 0, type_' = 1, isBinary_' = False,
           elements_' = [Str ''A'', Str ''A''] :: unit element list, count_' = 1, offSize_' = 1,
           offsets_' = [1, 2], tableLength_' = 6\<rparr>,
          \<lparr>buffer = [0, 1, 1, 1, 2, 65], offset = 6\<rparr>) \<and>
   int (count_' \<lparr>name_' = ''S'', offset_' = 0, type_' = 1, isBinary_' = False,
           elements_' = [Str ''A'', Str ''A''] :: unit element list, count_' = 1, offSize_' = 1,
           offsets_' = [1, 2], tableLength_' = 6\<rparr>) \<le> 1 \<and>
   getElement \<lparr>name_' = ''S'', offset_' = 0, type_' = 1, isBinary_' = False,
           elements_' = [Str ''A'', Str ''A''] :: unit element list, count_' = 1, offSize_' = 1,
           offsets_' = [1, 2], tableLength_' = 6\<rparr> 1 = Inr (Str ''A'')"
  by (simp add: CffIndex_def seek_def getUint16_def getUint8_def getOffset_def
        readUnsigned_def readBytes_def be_value_def CffIndex_offsets.simps
        loadStrings_def dataStart_def loadStrings_loop.simps dataLength_def readString_def readSpan_def
        text_A [simplified] getElement_def)

text \<open>
  Claim C3, as amended. Take an object constructed with a count of at least 1, with any
  elements already loaded, whose offsets do not decrease and whose spans lie inside the
  buffer of the cursor. \<open>loadStrings\<close> seeks to
  \<open>dataStart = sourceOffset + 2 + 1 + (count + 1) * offSize\<close> and returns. It appends \<open>count\<close>
  elements after those already there, so that the object has \<open>count\<close> elements when it
  had none; the \<open>i\<close>-th appended element is made of the \<open>offsets[i + 1] - offsets[i]\<close> bytes
  that follow those of the elements appended before it (the span itself for a binary
  INDEX, its text otherwise). The cursor is left where the last span ends, at
  \<open>dataStart + offsets[count] - offsets[0]\<close>, which is the end of the table when the first
  offset is 1.
\<close>

theorem loadStrings_spans:
  assumes k: "CffIndex name offs type isBinary binEd = Inr (this0, binEd0)"
    and c1: "1 \<le> count_' this0"
    and t: "this = this0\<lparr>elements_' := es\<rparr>"
    and mono: "\<forall>i < count_' this. offsets_' this ! i \<le> offsets_' this ! (i + 1)"
    and fit: "dataStart this + (offsets_' this ! count_' this - offsets_' this ! 0)
                \<le> length (buffer c)"
  shows
   "dataStart this = offs + 2 + 1 + (count_' this + 1) * offSize_' this \<and>
    (\<exists>this' c'. loadStrings this c = Inr (this', c') \<and>
       length (elements_' this') = length es + count_' this \<and>
       take (length es) (elements_' this') = es \<and>
       (\<forall>i < count_' this.
           elements_' this' ! (length es + i) =
             element_of isBinary
               (take (offsets_' this ! (i + 1) - offsets_' this ! i)
                  (drop (dataStart this + (offsets_' this ! i - offsets_' this ! 0)) (buffer c))) \<and>
           length (take (offsets_' this ! (i + 1) - offsets_' this ! i)
                  (drop (dataStart this + (offsets_' this ! i - offsets_' this ! 0)) (buffer c))) =
             offsets_' this ! (i + 1) - offsets_' this ! i) \<and>
       c' = c\<lparr>offset := dataStart this + (offsets_' this ! count_' this - offsets_' this ! 0)\<rparr> \<and>
       (offsets_' this ! 0 = 1 \<longrightarrow> int (offset c') = int offs + getLength this))"
proof -
  let ?o = "offsets_' this" and ?n = "count_' this" and ?d = "dataStart this"
  note f = CffIndex_fields[OF k]
  from t have same: "count_' this = count_' this0" "offsets_' this = offsets_' this0"
    "offSize_' this = offSize_' this0" "offset_' this = offset_' this0"
    "isBinary_' this = isBinary_' this0" "tableLength_' this = tableLength_' this0"
    "elements_' this = es"
    by simp_all
  have len: "length ?o = ?n + 1"
    unfolding same by (subst CffIndex_Inr(1)[OF k c1]) simp
  have ds: "?d = offs + 2 + 1 + (?n + 1) * offSize_' this"
    by (simp add: dataStart_def same f)
  have tl: "getLength this = int (2 + 1 + (?n + 1) * offSize_' this + ?o ! ?n) - 1"
    unfolding getLength_def same by (subst CffIndex_Inr(1)[OF k c1]) simp
  from mono have mono': "\<forall>j. 0 \<le> j \<and> j < ?n \<longrightarrow> ?o ! j \<le> ?o ! Suc j" by simp
  from mono len have 1: "\<forall>j < ?n. Suc j < length ?o \<and> ?o ! j \<le> ?o ! Suc j" by simp
  from fit have 2: "0 < ?n \<longrightarrow> ?d + (?o ! ?n - ?o ! 0) \<le> length (buffer c)" by simp
  let ?new = "map (\<lambda>j. element_of (isBinary_' this)
                   (take (?o ! Suc j - ?o ! j) (drop (?d + (?o ! j - ?o ! 0)) (buffer c))))
              [0..<?n]"
  let ?this' = "this\<lparr>elements_' := elements_' this @ ?new\<rparr>"
  let ?c' = "c\<lparr>offset := ?d + (?o ! ?n - ?o ! 0)\<rparr>"
  have l: "loadStrings this c = Inr (?this', ?c')"
    by (rule loadStrings_Inr_I[OF 1 2])
  have e: "elements_' ?this' = es @ ?new" by (simp add: same)
  have a: "length (elements_' ?this') = length es + ?n" by (simp add: e)
  have b: "take (length es) (elements_' ?this') = es" by (simp add: e)
  have s: "elements_' ?this' ! (length es + i) =
             element_of isBinary
               (take (?o ! (i + 1) - ?o ! i) (drop (?d + (?o ! i - ?o ! 0)) (buffer c))) \<and>
           length (take (?o ! (i + 1) - ?o ! i) (drop (?d + (?o ! i - ?o ! 0)) (buffer c))) =
             ?o ! (i + 1) - ?o ! i" if i: "i < ?n" for i
  proof -
    from mono i have m: "?o ! i \<le> ?o ! (i + 1)" by simp
    from adjacent_mono[OF mono', of 0 i] i have m0: "?o ! 0 \<le> ?o ! i" by simp
    from adjacent_mono[OF mono', of "Suc i" ?n] i have mn: "?o ! (i + 1) \<le> ?o ! ?n" by simp
    from i have "?new ! i = element_of (isBinary_' this)
               (take (?o ! (i + 1) - ?o ! i) (drop (?d + (?o ! i - ?o ! 0)) (buffer c)))"
      by simp
    then have x: "elements_' ?this' ! (length es + i) = element_of isBinary
               (take (?o ! (i + 1) - ?o ! i) (drop (?d + (?o ! i - ?o ! 0)) (buffer c)))"
      unfolding e by (simp add: same f)
    from fit m m0 mn have "?d + (?o ! i - ?o ! 0) + (?o ! (i + 1) - ?o ! i) \<le> length (buffer c)"
      by simp
    then have "length (take (?o ! (i + 1) - ?o ! i) (drop (?d + (?o ! i - ?o ! 0)) (buffer c))) =
             ?o ! (i + 1) - ?o ! i"
      by simp
    with x show ?thesis by blast
  qed
  have p: "int (offset ?c') = int offs + getLength this" if o0: "?o ! 0 = 1"
  proof -
    from c1 have "0 < ?n" by (simp add: same)
    with adjacent_mono[OF mono', of 0 ?n] o0 have "1 \<le> ?o ! ?n" by simp
    with o0 show ?thesis unfolding tl ds by simp
  qed
  have "loadStrings this c = Inr (?this', ?c') \<and>
       length (elements_' ?this') = length es + ?n \<and>
       take (length es) (elements_' ?this') = es \<and>
       (\<forall>i < ?n.
           elements_' ?this' ! (length es + i) =
             element_of isBinary
               (take (?o ! (i + 1) - ?o ! i) (drop (?d + (?o ! i - ?o ! 0)) (buffer c))) \<and>
           length (take (?o ! (i + 1) - ?o ! i) (drop (?d + (?o ! i - ?o ! 0)) (buffer c))) =
             ?o ! (i + 1) - ?o ! i) \<and>
       ?c' = c\<lparr>offset := ?d + (?o ! ?n - ?o ! 0)\<rparr> \<and>
       (?o ! 0 = 1 \<longrightarrow> int (offset ?c') = int offs + getLength this)"
    using l a b s p by blast
  then have "\<exists>this' c'. loadStrings this c = Inr (this', c') \<and>
       length (elements_' this') = length es + ?n \<and>
       take (length es) (elements_' this') = es \<and>
       (\<forall>i < ?n.
           elements_' this' ! (length es + i) =
             element_of isBinary
               (take (?o ! (i + 1) - ?o ! i) (drop (?d + (?o ! i - ?o ! 0)) (buffer c))) \<and>
           length (take (?o ! (i + 1) - ?o ! i) (drop (?d + (?o ! i - ?o ! 0)) (buffer c))) =
             ?o ! (i + 1) - ?o ! i) \<and>
       c' = c\<lparr>offset := ?d + (?o ! ?n - ?o ! 0)\<rparr> \<and>
       (?o ! 0 = 1 \<longrightarrow> int (offset c') = int offs + getLength this)"
    by (intro exI)
  with ds show ?thesis by (intro conjI)
qed


text \<open>
  The scenario's INDEX, not yet loaded: two elements, the second made of the bytes 66 and
  67, and the cursor at 9, the end of the table.
\<close>

theorem loadStrings_spans_witness:
  "CffIndex ''S'' 0 1 False \<lparr>buffer = [0, 2, 1, 1, 2, 4, 65, 66, 67], offset = 0\<rparr> =
     Inr (\<lparr>name_' = ''S'', offset_' = 0, type_' = 1, isBinary_' = False,
           elements_' = [] :: unit element list, count_' = 2, offSize_' = 1,
           offsets_' = [1, 2, 4], tableLength_' = 9\<rparr>,
          \<lparr>buffer = [0, 2, 1, 1, 2, 4, 65, 66, 67], offset = 6\<rparr>) \<and>
   [1, 2, 4 :: nat] ! 0 \<le> [1, 2, 4] ! 1 \<and> [1, 2, 4 :: nat] ! 1 \<le> [1, 2, 4] ! 2 \<and>
   (6::nat) + (4 - 1) \<le> length [0, 2, 1, 1, 2, 4, 65, 66, 67 :: byte] \<and>
   (\<exists>this' c'.
      loadStrings \<lparr>name_' = ''S'', offset_' = 0, type_' = 1, isBinary_' = False,
           elements_' = [] :: unit element list, count_' = 2, offSize_' = 1,
           offsets_' = [1, 2, 4], tableLength_' = 9\<rparr>
        \<lparr>buffer = [0, 2, 1, 1, 2, 4, 65, 66, 67], offset = 0\<rparr> = Inr (this', c') \<and>
      length (elements_' this') = 2 \<and>
      elements_' this' ! 1 = element_of False [66, 67] \<and>
      c' = \<lparr>buffer = [0, 2, 1, 1, 2, 4, 65, 66, 67], offset = 9\<rparr> \<and>
      int (offset c') = 0 + 9)"
proof -
  let ?b = "\<lparr>buffer = [0, 2, 1, 1, 2, 4, 65, 66, 67], offset = 0\<rparr>"
  let ?b1 = "\<lparr>buffer = [0, 2, 1, 1, 2, 4, 65, 66, 67], offset = 6\<rparr>"
  let ?t0 = "\<lparr>name_' = ''S'', offset_' = 0, type_' = 1, isBinary_' = False,
           elements_' = [] :: unit element list, count_' = 2, offSize_' = 1,
           offsets_' = [1, 2, 4], tableLength_' = 9\<rparr>"
  have k: "CffIndex ''S'' 0 1 False ?b = Inr (?t0, ?b1)"
    by (rule scenario_construct)
  have c: "1 \<le> count_' ?t0" by simp
  have t: "?t0 = ?t0\<lparr>elements_' := []\<rparr>" by simp
  have m0: "[1, 2, 4 :: nat] ! 0 \<le> [1, 2, 4] ! 1" and m1: "[1, 2, 4 :: nat] ! 1 \<le> [1, 2, 4] ! 2"
    by simp_all
  have mono: "\<forall>i < count_' ?t0. offsets_' ?t0 ! i \<le> offsets_' ?t0 ! (i + 1)"
  proof (intro allI impI)
    fix i :: nat assume "i < count_' ?t0"
    then have "i = 0 \<or> i = 1" by auto
    with m0 m1 show "offsets_' ?t0 ! i \<le> offsets_' ?t0 ! (i + 1)" by auto
  qed
  have f0: "(6::nat) + (4 - 1) \<le> length [0, 2, 1, 1, 2, 4, 65, 66, 67 :: byte]" by simp
  then have fit: "dataStart ?t0 + (offsets_' ?t0 ! count_' ?t0 - offsets_' ?t0 ! 0)
      \<le> length (buffer ?b)"
    by (simp add: dataStart_def)
  note s = loadStrings_spans[OF k c t mono fit, THEN conjunct2]
  from s obtain this' c' where
    w: "loadStrings ?t0 ?b = Inr (this', c') \<and>
       length (elements_' this') = length ([] :: unit element list) + count_' ?t0 \<and>
       take (length ([] :: unit element list)) (elements_' this') = [] \<and>
       (\<forall>i < count_' ?t0.
           elements_' this' ! (length ([] :: unit element list) + i) =
             element_of False
               (take (offsets_' ?t0 ! (i + 1) - offsets_' ?t0 ! i)
                  (drop (dataStart ?t0 + (offsets_' ?t0 ! i - offsets_' ?t0 ! 0)) (buffer ?b))) \<and>
           length (take (offsets_' ?t0 ! (i + 1) - offsets_' ?t0 ! i)
                  (drop (dataStart ?t0 + (offsets_' ?t0 ! i - offsets_' ?t0 ! 0)) (buffer ?b))) =
             offsets_' ?t0 ! (i + 1) - offsets_' ?t0 ! i) \<and>
       c' = ?b\<lparr>offset := dataStart ?t0 + (offsets_' ?t0 ! count_' ?t0 - offsets_' ?t0 ! 0)\<rparr> \<and>
       (offsets_' ?t0 ! 0 = 1 \<longrightarrow> int (offset c') = int 0 + getLength ?t0)"
    by (elim exE) (rule that)
  note l = w[THEN conjunct1]
  have a: "length (elements_' this') = 2"
    using w[THEN conjunct2, THEN conjunct1] by simp
  have e: "elements_' this' ! 1 = element_of False [66, 67]"
    using w[THEN conjunct2, THEN conjunct2, THEN conjunct2, THEN conjunct1, rule_format, of 1,
        THEN conjunct1]
    by (simp add: dataStart_def)
  have cc: "c' = \<lparr>buffer = [0, 2, 1, 1, 2, 4, 65, 66, 67], offset = 9\<rparr>"
    using w[THEN conjunct2, THEN conjunct2, THEN conjunct2, THEN conjunct2, THEN conjunct1]
    by (simp add: dataStart_def)
  have pp: "int (offset c') = 0 + 9"
    using w[THEN conjunct2, THEN conjunct2, THEN conjunct2, THEN conjunct2, THEN conjunct2]
    by (simp add: getLength_def)
  from l a e cc pp have "loadStrings ?t0 ?b = Inr (this', c') \<and>
      length (elements_' this') = 2 \<and>
      elements_' this' ! 1 = element_of False [66, 67] \<and>
      c' = \<lparr>buffer = [0, 2, 1, 1, 2, 4, 65, 66, 67], offset = 9\<rparr> \<and>
      int (offset c') = 0 + 9"
    by (intro conjI)
  then have x: "\<exists>this' c'. loadStrings ?t0 ?b = Inr (this', c') \<and>
      length (elements_' this') = 2 \<and>
      elements_' this' ! 1 = element_of False [66, 67] \<and>
      c' = \<lparr>buffer = [0, 2, 1, 1, 2, 4, 65, 66, 67], offset = 9\<rparr> \<and>
      int (offset c') = 0 + 9"
    by (intro exI)
  show ?thesis
    by (intro conjI k m0 m1 f0 x)
qed

text \<open>
  Three runs against the claim as first stated. A second \<open>loadStrings\<close> on an INDEX of one
  element leaves two elements. On an INDEX whose offsets are 3 and 4 the cursor is left at
  6, while the table length is 8. Over a buffer that ends before the data \<open>loadStrings\<close>
  throws and appends nothing.
\<close>

theorem loadStrings_postcondition_counterexample:
  "CffIndex ''S'' 0 1 False \<lparr>buffer = [0, 1, 1, 1, 2, 65], offset = 0\<rparr> =
     Inr (\<lparr>name_' = ''S'', offset_' = 0, type_' = 1, isBinary_' = False,
           elements_' = [] :: unit element list, count_' = 1, offSize_' = 1,
           offsets_' = [1, 2], tableLength_' = 6\<rparr>,
          \<lparr>buffer = [0, 1, 1, 1, 2, 65], offset = 5\<rparr>) \<and>
   loadStrings \<lparr>name_' = ''S'', offset_' = 0, type_' = 1, isBinary_' = False,
           elements_' = [] :: unit element list, count_' = 1, offSize_' = 1,
           offsets_' = [1, 2], tableLength_' = 6\<rparr>
       \<lparr>buffer = [0, 1, 1, 1, 2, 65], offset = 5\<rparr> =
     Inr (\<lparr>name_' = ''S'', offset_' = 0, type_' = 1, isBinary_' = False,
           elements_' = [Str ''A''] :: unit element list, count_' = 1, offSize_' = 1,
           offsets_' = [1, 2], tableLength_' = 6\<rparr>,
          \<lparr>buffer = [0, 1, 1, 1, 2, 65], offset = 6\<rparr>) \<and>
   loadStrings \<lparr>name_' = ''S'', offset_' = 0, type_' = 1, isBinary_' = False,
           elements_' = [Str ''A''] :: unit element list, count_' = 1, offSize_' = 1,
           offsets_' = [1, 2], tableLength_' = 6\<rparr>
       \<lparr>buffer = [0, 1, 1, 1, 2, 65], offset = 6\<rparr> =
     Inr (\<lparr>name_' = ''S'', offset_' = 0, type_' = 1, isBinary_' = False,
           elements_' = [Str ''A'', Str ''A''] :: unit element list, count_' = 1, offSize_' = 1,
           offsets_' = [1, 2], tableLength_' = 6\<rparr>,
          \<lparr>buffer = [0, 1, 1, 1, 2, 65], offset = 6\<rparr>) \<and>
   length [Str ''A'', Str ''A'' :: unit element] \<noteq> 1 \<and>
   CffIndex ''S'' 0 1 False \<lparr>buffer = [0, 1, 1, 3, 4, 65, 66, 67], offset = 0\<rparr> =
     Inr (\<lparr>name_' = ''S'', offset_' = 0, type_' = 1, isBinary_' = False,
           elements_' = [] :: unit element list, count_' = 1, offSize_' = 1,
           offsets_' = [3, 4], tableLength_' = 8\<rparr>,
          \<lparr>buffer = [0, 1, 1, 3, 4, 65, 66, 67], offset = 5\<rparr>) \<and>
   loadStrings \<lparr>name_' = ''S'', offset_' = 0, type_' = 1, isBinary_' = False,
           elements_' = [] :: unit element list, count_' = 1, offSize_' = 1,
           offsets_' = [3, 4], tableLength_' = 8\<rparr>
       \<lparr>buffer = [0, 1, 1, 3, 4, 65, 66, 67], offset = 5\<rparr> =
     Inr (\<lparr>name_' = ''S'', offset_' = 0, type_' = 1, isBinary_' = False,
           elements_' = [Str ''A''] :: unit element list, count_' = 1, offSize_' = 1,
           offsets_' = [3, 4], tableLength_' = 8\<rparr>,
          \<lparr>buffer = [0, 1, 1, 3, 4, 65, 66, 67], offset = 6\<rparr>) \<and>
   (6::int) \<noteq> 0 + 8 \<and>
   loadStrings \<lparr>name_' = ''S'', offset_' = 0, type_' = 1, isBinary_' = False,
           elements_' = [] :: unit element list, count_' = 1, offSize_' = 1,
           offsets_' = [1, 2], tableLength_' = 6\<rparr>
       \<lparr>buffer = [0, 1, 1, 1, 2], offset = 5\<rparr> =
     Inl (TruncatedBuffer,
          \<lparr>name_' = ''S'', offset_' = 0, type_' = 1, isBinary_' = False,
           elements_' = [] :: unit element list, count_' = 1, offSize_' = 1,
           offsets_' = [1, 2], tableLength_' = 6\<rparr>)"
proof (intro conjI)
  show "CffIndex ''S'' 0 1 False \<lparr>buffer = [0, 1, 1, 1, 2, 65], offset = 0\<rparr> =
     Inr (\<lparr>name_' = ''S'', offset_' = 0, type_' = 1, isBinary_' = False,
           elements_' = [] :: unit element list, count_' = 1, offSize_' = 1,
           offsets_' = [1, 2], tableLength_' = 6\<rparr>,
          \<lparr>buffer = [0, 1, 1, 1, 2, 65], offset = 5\<rparr>)"
    by (rule single_construct)
  show "loadStrings \<lparr>name_' = ''S'', offset_' = 0, type_' = 1, isBinary_' = False,
           elements_' = [] :: unit element list, count_' = 1, offSize_' = 1,
           offsets_' = [1, 2], tableLength_' = 6\<rparr>
       \<lparr>buffer = [0, 1, 1, 1, 2, 65], offset = 5\<rparr> =
     Inr (\<lparr>name_' = ''S'', offset_' = 0, type_' = 1, isBinary_' = False,
           elements_' = [Str ''A''] :: unit element list, count_' = 1, offSize_' = 1,
           offsets_' = [1, 2], tableLength_' = 6\<rparr>,
          \<lparr>buffer = [0, 1, 1, 1, 2, 65], offset = 6\<rparr>)"
    using single_load[of "''S''" 1 "[]" 5] by simp
  show "loadStrings \<lparr>name_' = ''S'', offset_' = 0, type_' = 1, isBinary_' = False,
           elements_' = [Str ''A''] :: unit element list, count_' = 1, offSize_' = 1,
           offsets_' = [1, 2], tableLength_' = 6\<rparr>
       \<lparr>buffer = [0, 1, 1, 1, 2, 65], offset = 6\<rparr> =
     Inr (\<lparr>name_' = ''S'', offset_' = 0, type_' = 1, isBinary_' = False,
           elements_' = [Str ''A'', Str ''A''] :: unit element list, count_' = 1, offSize_' = 1,
           offsets_' = [1, 2], tableLength_' = 6\<rparr>,
          \<lparr>buffer = [0, 1, 1, 1, 2, 65], offset = 6\<rparr>)"
    using single_load[of "''S''" 1 "[Str ''A'']" 6] by simp
  show "CffIndex ''S'' 0 1 False \<lparr>buffer = [0, 1, 1, 3, 4, 65, 66, 67], offset = 0\<rparr> =
     Inr (\<lparr>name_' = ''S'', offset_' = 0, type_' = 1, isBinary_' = False,
           elements_' = [] :: unit element list, count_' = 1, offSize_' = 1,
           offsets_' = [3, 4], tableLength_' = 8\<rparr>,
          \<lparr>buffer = [0, 1, 1, 3, 4, 65, 66, 67], offset = 5\<rparr>)"
    by (rule shifted_construct)
  show "loadStrings \<lparr>name_' = ''S'', offset_' = 0, type_' = 1, isBinary_' = False,
           elements_' = [] :: unit element list, count_' = 1, offSize_' = 1,
           offsets_' = [3, 4], tableLength_' = 8\<rparr>
       \<lparr>buffer = [0, 1, 1, 3, 4, 65, 66, 67], offset = 5\<rparr> =
     Inr (\<lparr>name_' = ''S'', offset_' = 0, type_' = 1, isBinary_' = False,
           elements_' = [Str ''A''] :: unit element list, count_' = 1, offSize_' = 1,
           offsets_' = [3, 4], tableLength_' = 8\<rparr>,
          \<lparr>buffer = [0, 1, 1, 3, 4, 65, 66, 67], offset = 6\<rparr>)"
    by (rule shifted_load)
  show "loadStrings \<lparr>name_' = ''S'', offset_' = 0, type_' = 1, isBinary_' = False,
           elements_' = [] :: unit element list, count_' = 1, offSize_' = 1,
           offsets_' = [1, 2], tableLength_' = 6\<rparr>
       \<lparr>buffer = [0, 1, 1, 1, 2], offset = 5\<rparr> =
     Inl (TruncatedBuffer,
          \<lparr>name_' = ''S'', offset_' = 0, type_' = 1, isBinary_' = False,
           elements_' = [] :: unit element list, count_' = 1, offSize_' = 1,
           offsets_' = [1, 2], tableLength_' = 6\<rparr>)"
    by (rule truncated_load)
qed simp_all

text \<open>
  Claim C10. On an object constructed with a count of at least 1 on which \<open>loadStrings\<close> has
  returned once, a second call over the same buffer returns too and appends \<open>count\<close>
  further elements: the object then has \<open>2 * count\<close> elements, the first \<open>count\<close> are those
  of the first call, and \<open>getElement (count + i)\<close> equals \<open>getElement i\<close> for every
  \<open>i < count\<close>.
\<close>

theorem loadStrings_twice:
  assumes k: "CffIndex name offs type isBinary binEd = Inr (this0, binEd0)"
    and c1: "1 \<le> count_' this0"
    and l: "loadStrings this0 c = Inr (this1, c1)"
    and b: "buffer d = buffer c"
  shows "\<exists>this2 d2. loadStrings this1 d = Inr (this2, d2) \<and>
           length (elements_' this1) = count_' this0 \<and>
           length (elements_' this2) = 2 * count_' this0 \<and>
           elements_' this2 = elements_' this1 @ elements_' this1 \<and>
           (\<forall>i < count_' this0.
              getElement this2 (int i) = Inr (elements_' this1 ! i) \<and>
              getElement this2 (int (count_' this0 + i)) = getElement this2 (int i))"
proof -
  let ?n = "count_' this0"
  let ?new = "\<lambda>this c. map (\<lambda>j. element_of (isBinary_' this)
                   (take (offsets_' this ! Suc j - offsets_' this ! j)
                      (drop (dataStart this + (offsets_' this ! j - offsets_' this ! 0))
                         (buffer c))))
              [0..<count_' this]"
  note f = CffIndex_fields[OF k]
  note D = loadStrings_Inr_D[OF l]
  note E = loadStrings_Inr_eq[OF l]
  have t1: "this1 = this0\<lparr>elements_' := ?new this0 c\<rparr>"
    by (subst E(1)) (simp add: f)
  have same: "count_' this1 = ?n" "offsets_' this1 = offsets_' this0"
    "isBinary_' this1 = isBinary_' this0" "dataStart this1 = dataStart this0"
    by (simp_all add: t1 dataStart_def)
  have e1: "elements_' this1 = ?new this0 c" by (simp add: t1)
  have n1: "length (elements_' this1) = ?n" by (simp add: e1)
  from D have 1: "\<forall>j < count_' this1.
      Suc j < length (offsets_' this1) \<and> offsets_' this1 ! j \<le> offsets_' this1 ! Suc j"
    unfolding same by blast
  from D b have 2: "0 < count_' this1 \<longrightarrow>
      dataStart this1 + (offsets_' this1 ! count_' this1 - offsets_' this1 ! 0) \<le> length (buffer d)"
    unfolding same by simp
  note I = loadStrings_Inr_I[OF 1 2]
  have nw: "?new this1 d = elements_' this1"
    unfolding same e1 b by simp
  let ?this2 = "this1\<lparr>elements_' := elements_' this1 @ elements_' this1\<rparr>"
  from I have r: "loadStrings this1 d =
      Inr (?this2, d\<lparr>offset := dataStart this1 + (offsets_' this1 ! count_' this1 - offsets_' this1 ! 0)\<rparr>)"
    unfolding nw by simp
  have g: "getElement ?this2 (int i) = Inr (elements_' this1 ! i) \<and>
           getElement ?this2 (int (?n + i)) = getElement ?this2 (int i)" if "i < ?n" for i
  proof -
    have "getElement ?this2 (int i) = Inr (elements_' this1 ! i)"
      using that n1 by (simp add: getElement_def nth_append)
    moreover have "getElement ?this2 (int (?n + i)) = Inr (elements_' this1 ! i)"
      using that n1 unfolding getElement_def by (simp only: nat_int) (simp add: nth_append)
    ultimately show ?thesis by simp
  qed
  from r n1 g show ?thesis
    by (intro exI[of _ ?this2] exI) auto
qed


text \<open>
  The INDEX \<open>00 01, 01, 01 02, 'A'\<close> loaded twice.
\<close>

theorem loadStrings_twice_witness:
  "CffIndex ''S'' 0 1 False \<lparr>buffer = [0, 1, 1, 1, 2, 65], offset = 0\<rparr> =
     Inr (\<lparr>name_' = ''S'', offset_' = 0, type_' = 1, isBinary_' = False,
           elements_' = [] :: unit element list, count_' = 1, offSize_' = 1,
           offsets_' = [1, 2], tableLength_' = 6\<rparr>,
          \<lparr>buffer = [0, 1, 1, 1, 2, 65], offset = 5\<rparr>) \<and>
   loadStrings \<lparr>name_' = ''S'', offset_' = 0, type_' = 1, isBinary_' = False,
           elements_' = [] :: unit element list, count_' = 1, offSize_' = 1,
           offsets_' = [1, 2], tableLength_' = 6\<rparr>
       \<lparr>buffer = [0, 1, 1, 1, 2, 65], offset = 5\<rparr> =
     Inr (\<lparr>name_' = ''S'', offset_' = 0, type_' = 1, isBinary_' = False,
           elements_' = [Str ''A''] :: unit element list, count_' = 1, offSize_' = 1,
           offsets_' = [1, 2], tableLength_' = 6\<rparr>,
          \<lparr>buffer = [0, 1, 1, 1, 2, 65], offset = 6\<rparr>) \<and>
   (\<exists>this2 d2.
      loadStrings \<lparr>name_' = ''S'', offset_' = 0, type_' = 1, isBinary_' = False,
           elements_' = [Str ''A''] :: unit element list, count_' = 1, offSize_' = 1,
           offsets_' = [1, 2], tableLength_' = 6\<rparr>
        \<lparr>buffer = [0, 1, 1, 1, 2, 65], offset = 6\<rparr> = Inr (this2, d2) \<and>
      length (elements_' this2) = 2 \<and>
      getElement this2 0 = Inr (Str ''A'') \<and>
      getElement this2 1 = getElement this2 0)"
proof -
  let ?b = "\<lparr>buffer = [0, 1, 1, 1, 2, 65], offset = 0\<rparr>"
  let ?b1 = "\<lparr>buffer = [0, 1, 1, 1, 2, 65], offset = 5\<rparr>"
  let ?b2 = "\<lparr>buffer = [0, 1, 1, 1, 2, 65], offset = 6\<rparr>"
  let ?t0 = "\<lparr>name_' = ''S'', offset_' = 0, type_' = 1, isBinary_' = False,
           elements_' = [] :: unit element list, count_' = 1, offSize_' = 1,
           offsets_' = [1, 2], tableLength_' = 6\<rparr>"
  let ?t1 = "\<lparr>name_' = ''S'', offset_' = 0, type_' = 1, isBinary_' = False,
           elements_' = [Str ''A''] :: unit element list, count_' = 1, offSize_' = 1,
           offsets_' = [1, 2], tableLength_' = 6\<rparr>"
  have k: "CffIndex ''S'' 0 1 False ?b = Inr (?t0, ?b1)"
    by (rule single_construct)
  have c: "1 \<le> count_' ?t0" by simp
  have l: "loadStrings ?t0 ?b1 = Inr (?t1, ?b2)"
    using single_load[of "''S''" 1 "[]" 5] by simp
  have b: "buffer ?b2 = buffer ?b1" by simp
  from loadStrings_twice[OF k c l b] obtain this2 d2 where
    r: "loadStrings ?t1 ?b2 = Inr (this2, d2)" and
    n: "length (elements_' this2) = 2 * count_' ?t0" and
    g: "\<forall>i < count_' ?t0.
              getElement this2 (int i) = Inr (elements_' ?t1 ! i) \<and>
              getElement this2 (int (count_' ?t0 + i)) = getElement this2 (int i)"
    by blast
  from n have n': "length (elements_' this2) = 2" by simp
  from g[rule_format, of 0] have g0: "getElement this2 0 = Inr (Str ''A'')"
    and g1: "getElement this2 1 = getElement this2 0"
    by simp_all
  from r n' g0 g1 have "loadStrings ?t1 ?b2 = Inr (this2, d2) \<and>
      length (elements_' this2) = 2 \<and>
      getElement this2 0 = Inr (Str ''A'') \<and>
      getElement this2 1 = getElement this2 0"
    by (intro conjI)
  then have e: "\<exists>this2 d2. loadStrings ?t1 ?b2 = Inr (this2, d2) \<and>
      length (elements_' this2) = 2 \<and>
      getElement this2 0 = Inr (Str ''A'') \<and>
      getElement this2 1 = getElement this2 0"
    by (intro exI)
  show ?thesis
    by (intro conjI k l e)
qed


text \<open>
  Claim C9, on the code. The round trip holds through \<open>loadStrings\<close> (lemma
  \<open>loadStrings_round_trip\<close>) and fails through \<open>loadDict\<close>: over an INDEX of two DICTs, the
  bytes 139 15 and 247 0 17, \<open>loadDict\<close> hands the decoder 139 15 for the first, and for
  the second the three bytes 139 15 247 that start where the first DICT starts, not
  247 0 17. Its loop builds each view at \<open>binEd.offset\<close> and never moves it, where the loop
  of \<open>loadStrings\<close> moves on with every read.
\<close>

theorem loadDict_spans_not_advanced:
  "CffIndex ''D'' 0 TYPE_DICT False
       \<lparr>buffer = [0, 2, 1, 1, 3, 6, 139, 15, 247, 0, 17], offset = 0\<rparr> =
     Inr (\<lparr>name_' = ''D'', offset_' = 0, type_' = TYPE_DICT, isBinary_' = False,
           elements_' = [] :: byte list element list, count_' = 2, offSize_' = 1,
           offsets_' = [1, 3, 6], tableLength_' = 11\<rparr>,
          \<lparr>buffer = [0, 2, 1, 1, 3, 6, 139, 15, 247, 0, 17], offset = 6\<rparr>) \<and>
   loadDict (\<lambda>name i dataView. Inr dataView)
       \<lparr>name_' = ''D'', offset_' = 0, type_' = TYPE_DICT, isBinary_' = False,
           elements_' = [] :: byte list element list, count_' = 2, offSize_' = 1,
           offsets_' = [1, 3, 6], tableLength_' = 11\<rparr>
       \<lparr>buffer = [0, 2, 1, 1, 3, 6, 139, 15, 247, 0, 17], offset = 6\<rparr> =
     Inr (\<lparr>name_' = ''D'', offset_' = 0, type_' = TYPE_DICT, isBinary_' = False,
           elements_' = [Dict [139, 15], Dict [139, 15, 247]], count_' = 2, offSize_' = 1,
           offsets_' = [1, 3, 6], tableLength_' = 11\<rparr>,
          \<lparr>buffer = [0, 2, 1, 1, 3, 6, 139, 15, 247, 0, 17], offset = 6\<rparr>) \<and>
   getElement \<lparr>name_' = ''D'', offset_' = 0, type_' = TYPE_DICT, isBinary_' = False,
           elements_' = [Dict [139, 15], Dict [139, 15, 247]], count_' = 2, offSize_' = 1,
           offsets_' = [1, 3, 6], tableLength_' = 11\<rparr> 1 = Inr (Dict [139, 15, 247]) \<and>
   take (3 - 1) (drop (6 + (1 - 1)) [0, 2, 1, 1, 3, 6, 139, 15, 247, 0, 17 :: byte]) = [139, 15] \<and>
   take (6 - 3) (drop (6 + (3 - 1)) [0, 2, 1, 1, 3, 6, 139, 15, 247, 0, 17 :: byte]) = [247, 0, 17] \<and>
   [139, 15, 247] \<noteq> [247, 0, 17 :: byte]"
proof (intro conjI)
  show "CffIndex ''D'' 0 TYPE_DICT False
       \<lparr>buffer = [0, 2, 1, 1, 3, 6, 139, 15, 247, 0, 17], offset = 0\<rparr> =
     Inr (\<lparr>name_' = ''D'', offset_' = 0, type_' = TYPE_DICT, isBinary_' = False,
           elements_' = [] :: byte list element list, count_' = 2, offSize_' = 1,
           offsets_' = [1, 3, 6], tableLength_' = 11\<rparr>,
          \<lparr>buffer = [0, 2, 1, 1, 3, 6, 139, 15, 247, 0, 17], offset = 6\<rparr>)"
    by (rule dict_construct)
  show "loadDict (\<lambda>name i dataView. Inr dataView)
       \<lparr>name_' = ''D'', offset_' = 0, type_' = TYPE_DICT, isBinary_' = False,
           elements_' = [] :: byte list element list, count_' = 2, offSize_' = 1,
           offsets_' = [1, 3, 6], tableLength_' = 11\<rparr>
       \<lparr>buffer = [0, 2, 1, 1, 3, 6, 139, 15, 247, 0, 17], offset = 6\<rparr> =
     Inr (\<lparr>name_' = ''D'', offset_' = 0, type_' = TYPE_DICT, isBinary_' = False,
           elements_' = [Dict [139, 15], Dict [139, 15, 247]], count_' = 2, offSize_' = 1,
           offsets_' = [1, 3, 6], tableLength_' = 11\<rparr>,
          \<lparr>buffer = [0, 2, 1, 1, 3, 6, 139, 15, 247, 0, 17], offset = 6\<rparr>)"
    by (rule dict_load)
qed (simp_all add: getElement_def)


end
